theory Spec2Isabelle
  imports Main "HOL-Library.Sublist"
begin

section \<open>Data model\<close>

text \<open>
  The function under study is \<^verbatim>\<open>process_card_data\<close> of \<^verbatim>\<open>sage_clean.py\<close>. It works on a
  pandas DataFrame. A cell of the frame is a missing value (NaN or None), a piece of text or
  an integer. Text is a byte string; the digits and blanks the code looks for are the ASCII
  ones. Floating-point cells are not part of the model.
\<close>

datatype cell = Null | Text string | Number int

text \<open>
  A frame after header installation: the column labels and the rows, row-major. A pandas
  frame is rectangular: every row has one cell per column (\<open>rectangular\<close> below).
\<close>

record dataframe =
  columns :: "string list"
  rows :: "cell list list"

definition rectangular :: "dataframe \<Rightarrow> bool" where
  "rectangular df = list_all (\<lambda>r. length r = length (columns df)) (rows df)"

text \<open>
  The body raises one exception of its own, the \<^verbatim>\<open>ValueError\<close> of step 2; the handler around
  the body reports it and returns \<^verbatim>\<open>None\<close>, that is, no table.
\<close>

datatype error = HeaderNotFound

section \<open>Strings\<close>

definition digit_char :: "nat \<Rightarrow> char" where
  "digit_char d = char_of (48 + d)"

fun str_nat :: "nat \<Rightarrow> string" where
  "str_nat n = (if n < 10 then [digit_char n] else str_nat (n div 10) @ [digit_char (n mod 10)])"

declare str_nat.simps [simp del]

text \<open>Python's \<^verbatim>\<open>str\<close> on an integer.\<close>

definition str_int :: "int \<Rightarrow> string" where
  "str_int i = (if i < 0 then CHR ''-'' # str_nat (nat (- i)) else str_nat (nat i))"

text \<open>\<^verbatim>\<open>astype(str)\<close> on a cell: a missing value prints as \<^verbatim>\<open>nan\<close>.\<close>

fun str_cell :: "cell \<Rightarrow> string" where
  "str_cell Null = ''nan''"
| "str_cell (Text s) = s"
| "str_cell (Number i) = str_int i"

text \<open>\<^verbatim>\<open>pd.isnull\<close>.\<close>

fun isnull :: "cell \<Rightarrow> bool" where
  "isnull Null = True"
| "isnull _ = False"

text \<open>Python's \<^verbatim>\<open>p in s\<close> on strings: \<open>p\<close> occurs in \<open>s\<close> as a contiguous block.\<close>

fun py_in :: "string \<Rightarrow> string \<Rightarrow> bool" where
  "py_in p [] = (p = [])"
| "py_in p (c # cs) = (prefix p (c # cs) \<or> py_in p cs)"

text \<open>The characters \<^verbatim>\<open>str.strip()\<close> removes, among the ASCII ones.\<close>

definition is_space :: "char \<Rightarrow> bool" where
  "is_space c = (c \<in> set [CHR 0x09, CHR 0x0A, CHR 0x0B, CHR 0x0C, CHR 0x0D,
                            CHR 0x1C, CHR 0x1D, CHR 0x1E, CHR 0x1F, CHR 0x20])"

definition strip :: "string \<Rightarrow> string" where
  "strip s = rev (dropWhile is_space (rev (dropWhile is_space s)))"

text \<open>The regular expression class \<^verbatim>\<open>\d\<close>, on ASCII.\<close>

definition is_digit :: "char \<Rightarrow> bool" where
  "is_digit c = (c \<in> set ''0123456789'')"

text \<open>\<^verbatim>\<open>re.search(r"\d+", val)\<close> finds a match exactly when \<open>val\<close> has a digit.\<close>

definition has_digits :: "string \<Rightarrow> bool" where
  "has_digits val = list_ex is_digit val"

text \<open>
  \<^verbatim>\<open>str.extract(r"(\d+)")\<close> on one string: the leftmost match of the greedy pattern, that
  is the longest digit run that starts at the first digit; a missing value when there is no
  match.
\<close>

definition extract_digits :: "string \<Rightarrow> cell" where
  "extract_digits s =
     (let t = dropWhile (\<lambda>c. \<not> is_digit c) s
      in if t = [] then Null else Text (takeWhile is_digit t))"

section \<open>Frames\<close>

text \<open>Boolean-mask selection, as in \<^verbatim>\<open>df.loc[:, mask]\<close>.\<close>

fun select :: "bool list \<Rightarrow> 'a list \<Rightarrow> 'a list" where
  "select (b # bs) (x # xs) = (if b then x # select bs xs else select bs xs)"
| "select _ _ = []"

definition loc_cols :: "bool list \<Rightarrow> dataframe \<Rightarrow> dataframe" where
  "loc_cols keep df = \<lparr>columns = select keep (columns df), rows = map (select keep) (rows df)\<rparr>"

text \<open>\<^verbatim>\<open>Index.duplicated()\<close>: a label is marked when it occurred further left.\<close>

fun duplicated :: "string list \<Rightarrow> string list \<Rightarrow> bool list" where
  "duplicated seen [] = []"
| "duplicated seen (c # cs) = (c \<in> set seen) # duplicated (c # seen) cs"

text \<open>\<^verbatim>\<open>df.drop(columns=labels, errors="ignore")\<close>: every column with one of the labels goes.\<close>

definition drop_columns :: "string list \<Rightarrow> dataframe \<Rightarrow> dataframe" where
  "drop_columns labels df = loc_cols (map (\<lambda>c. c \<notin> set labels) (columns df)) df"

text \<open>The cell of a row under the leftmost column labelled \<open>c\<close>.\<close>

fun cell_of :: "string \<Rightarrow> string list \<Rightarrow> cell list \<Rightarrow> cell" where
  "cell_of c (n # ns) (v # vs) = (if n = c then v else cell_of c ns vs)"
| "cell_of c _ _ = Null"

text \<open>\<^verbatim>\<open>df[c]\<close> for a label that occurs once: the column as a list of cells.\<close>

definition series :: "string \<Rightarrow> dataframe \<Rightarrow> cell list" where
  "series c df = map (cell_of c (columns df)) (rows df)"

text \<open>\<^verbatim>\<open>df.rename(columns={old: new})\<close>.\<close>

definition rename :: "string \<Rightarrow> string \<Rightarrow> dataframe \<Rightarrow> dataframe" where
  "rename old new df = df\<lparr>columns := map (\<lambda>c. if c = old then new else c) (columns df)\<rparr>"

text \<open>Overwriting the cell of a row under the leftmost column labelled \<open>c\<close>.\<close>

fun set_cell :: "string \<Rightarrow> string list \<Rightarrow> cell list \<Rightarrow> cell \<Rightarrow> cell list" where
  "set_cell c (n # ns) (x # xs) v = (if n = c then v # xs else x # set_cell c ns xs v)"
| "set_cell c _ xs v = xs"

text \<open>
  \<^verbatim>\<open>df[c] = values\<close>: an existing column is overwritten in place, a new one is appended on
  the right.
\<close>

definition assign :: "string \<Rightarrow> cell list \<Rightarrow> dataframe \<Rightarrow> dataframe" where
  "assign c vals df =
     (if c \<in> set (columns df)
      then df\<lparr>rows := map2 (\<lambda>r v. set_cell c (columns df) r v) (rows df) vals\<rparr>
      else \<lparr>columns = columns df @ [c], rows = map2 (\<lambda>r v. r @ [v]) (rows df) vals\<rparr>)"

text \<open>\<^verbatim>\<open>Series.ffill()\<close>: a missing value takes the last value seen above it.\<close>

fun ffill_from :: "cell \<Rightarrow> cell list \<Rightarrow> cell list" where
  "ffill_from prev [] = []"
| "ffill_from prev (x # xs) =
     (if isnull x then prev # ffill_from prev xs else x # ffill_from x xs)"

definition ffill :: "cell list \<Rightarrow> cell list" where
  "ffill xs = ffill_from Null xs"

section \<open>The steps of \<^verbatim>\<open>process_card_data\<close>\<close>

text \<open>
  Step 2: the loop over \<^verbatim>\<open>range(min(10, len(df)))\<close>, leaving at the first row one of whose
  cells, printed, contains \<^verbatim>\<open>Verified\<close>.
\<close>

definition row_has_verified :: "cell list \<Rightarrow> bool" where
  "row_has_verified row_vals = list_ex (\<lambda>cell. py_in ''Verified'' (str_cell cell)) row_vals"

fun scan_rows :: "nat \<Rightarrow> cell list list \<Rightarrow> nat option" where
  "scan_rows i [] = None"
| "scan_rows i (r # rs) = (if row_has_verified r then Some i else scan_rows (Suc i) rs)"

definition verified_header_index :: "cell list list \<Rightarrow> nat option" where
  "verified_header_index df = scan_rows 0 (take (min 10 (length df)) df)"

text \<open>Step 4: a missing label becomes the empty string, any other is printed and stripped.\<close>

definition clean_col :: "cell \<Rightarrow> string" where
  "clean_col col = (if isnull col then [] else strip (str_cell col))"

text \<open>Steps 3 and 4: the header row gives the labels, the rows below it are the data.\<close>

definition set_header :: "nat \<Rightarrow> cell list list \<Rightarrow> dataframe" where
  "set_header i df = \<lparr>columns = map clean_col (df ! i), rows = drop (Suc i) df\<rparr>"

text \<open>
  Step 5: the loop over the labels with the counter \<^verbatim>\<open>count_empty\<close>; a blank label becomes
  \<^verbatim>\<open>f"CardHolderName{count_empty}"\<close>.
\<close>

definition blank_name :: "nat \<Rightarrow> string" where
  "blank_name count_empty = ''CardHolderName'' @ str_nat count_empty"

fun rename_empty :: "nat \<Rightarrow> string list \<Rightarrow> string list" where
  "rename_empty count_empty [] = []"
| "rename_empty count_empty (col # cols) =
     (if col = [] then blank_name (Suc count_empty) # rename_empty (Suc count_empty) cols
      else col # rename_empty count_empty cols)"

definition name_empty_columns :: "dataframe \<Rightarrow> dataframe" where
  "name_empty_columns df = df\<lparr>columns := rename_empty 0 (columns df)\<rparr>"

text \<open>Step 6: \<^verbatim>\<open>df.loc[:, ~df.columns.duplicated()]\<close>.\<close>

definition drop_duplicate_columns :: "dataframe \<Rightarrow> dataframe" where
  "drop_duplicate_columns df = loc_cols (map Not (duplicated [] (columns df))) df"

text \<open>Step 7: \<^verbatim>\<open>Record#\<close> is dropped when it is there.\<close>

definition drop_record :: "dataframe \<Rightarrow> dataframe" where
  "drop_record df =
     (if ''Record#'' \<in> set (columns df) then drop_columns [''Record#''] df else df)"

text \<open>
  Step 8. The candidates are the labels that start with \<^verbatim>\<open>CardHolderName\<close>; the sample of a
  candidate is \<^verbatim>\<open>df[c].dropna().astype(str).head(20)\<close>; the first candidate whose sample has
  a value with a digit is chosen. A chosen column is renamed to \<^verbatim>\<open>CardHolderName\<close>, and the
  loop then drops every other candidate by its label (a label that is not there is ignored,
  and a label that stands on two columns takes both away).
\<close>

definition card_cols :: "dataframe \<Rightarrow> string list" where
  "card_cols df = filter (prefix ''CardHolderName'') (columns df)"

definition sample_values :: "string \<Rightarrow> dataframe \<Rightarrow> string list" where
  "sample_values c df = take 20 (map str_cell (filter (\<lambda>v. \<not> isnull v) (series c df)))"

definition chosen_col :: "dataframe \<Rightarrow> string option" where
  "chosen_col df = List.find (\<lambda>c. list_ex has_digits (sample_values c df)) (card_cols df)"

definition choose_card_column :: "dataframe \<Rightarrow> dataframe" where
  "choose_card_column df =
     (case chosen_col df of
        None \<Rightarrow> df
      | Some ch \<Rightarrow>
          fold (\<lambda>c d. if c \<noteq> ch then drop_columns [c] d else d) (card_cols df)
               (rename ch ''CardHolderName'' df))"

text \<open>
  Step 9 runs when a column is labelled \<^verbatim>\<open>CardHolderName\<close>, whether step 8 chose one or not:
  the printed cells of that column give their first digit run, the runs are filled forward and
  stored under \<^verbatim>\<open>Card No.\<close>, and the column \<^verbatim>\<open>CardHolderName\<close> is dropped.
\<close>

definition card_no :: "cell list \<Rightarrow> cell list" where
  "card_no holder = ffill (map (\<lambda>v. extract_digits (str_cell v)) holder)"

definition extract_card_no :: "dataframe \<Rightarrow> dataframe" where
  "extract_card_no df =
     (if ''CardHolderName'' \<in> set (columns df)
      then drop_columns [''CardHolderName'']
             (assign ''Card No.'' (card_no (series ''CardHolderName'' df)) df)
      else df)"

text \<open>Step 10: the desired labels that the frame has, in the order of the list.\<close>

definition desired_cols :: "string list" where
  "desired_cols = [''Card No.'', ''Verified'', ''Date'', ''Payee'', ''Charges'']"

definition existing_cols :: "dataframe \<Rightarrow> string list" where
  "existing_cols df = filter (\<lambda>c. c \<in> set (columns df)) desired_cols"

definition keep_final_columns :: "dataframe \<Rightarrow> dataframe" where
  "keep_final_columns df =
     \<lparr>columns = existing_cols df,
      rows = map (\<lambda>r. map (\<lambda>c. cell_of c (columns df) r) (existing_cols df)) (rows df)\<rparr>"

text \<open>
  Step 11: \<^verbatim>\<open>dropna(subset=check_cols, how="all")\<close> keeps the rows that have a value in
  at least one of the columns of the subset (its mask is \<^verbatim>\<open>notna\<close> of the subset, reduced by
  \<^verbatim>\<open>any\<close> along each row). The code passes \<^verbatim>\<open>check_cols\<close> as it is, also when it is empty.
\<close>

definition check_cols :: "dataframe \<Rightarrow> string list" where
  "check_cols df = filter (\<lambda>c. c \<noteq> ''Card No.'') (columns df)"

definition drop_empty_rows :: "dataframe \<Rightarrow> dataframe" where
  "drop_empty_rows df =
     df\<lparr>rows := filter (\<lambda>r. list_ex (\<lambda>c. \<not> isnull (cell_of c (columns df) r)) (check_cols df))
                        (rows df)\<rparr>"

text \<open>Step 12: \<^verbatim>\<open>df.iloc[:-rows_to_delete_bottom]\<close> under the guard of the code.\<close>

definition delete_bottom :: "nat \<Rightarrow> dataframe \<Rightarrow> dataframe" where
  "delete_bottom rows_to_delete_bottom df =
     (if rows_to_delete_bottom > 0 \<and> length (rows df) \<ge> rows_to_delete_bottom
      then df\<lparr>rows := take (length (rows df) - rows_to_delete_bottom) (rows df)\<rparr>
      else df)"

text \<open>Steps 3 to 9, on the rows left by the top trim, with the header at index \<open>i\<close>.\<close>

definition card_frame :: "nat \<Rightarrow> cell list list \<Rightarrow> dataframe" where
  "card_frame i df =
     extract_card_no (choose_card_column (drop_record (drop_duplicate_columns
       (name_empty_columns (set_header i df)))))"

text \<open>Steps 3 to 11.\<close>

definition clean_frame :: "nat \<Rightarrow> cell list list \<Rightarrow> dataframe" where
  "clean_frame i df = drop_empty_rows (keep_final_columns (card_frame i df))"

text \<open>The labels that step 11 looks at, when they are present.\<close>

definition value_cols :: "string list" where
  "value_cols = [''Verified'', ''Date'', ''Payee'', ''Charges'']"

text \<open>
  The whole function. The input frame is given by its rows; its own labels are replaced in
  step 3 and play no part.
\<close>

definition process_card_data :: "cell list list \<Rightarrow> nat \<Rightarrow> nat \<Rightarrow> error + dataframe" where
  "process_card_data df rows_to_delete_top rows_to_delete_bottom =
     (let df1 = drop rows_to_delete_top df
      in case verified_header_index df1 of
           None \<Rightarrow> Inl HeaderNotFound
         | Some i \<Rightarrow> Inr (delete_bottom rows_to_delete_bottom (clean_frame i df1)))"

section \<open>Lemmas on strings and on the header scan\<close>

lemma py_in_sublist: "py_in p s = sublist p s"
  by (induction s) (auto simp: sublist_Cons_right)

lemma row_has_verified_iff:
  "row_has_verified r \<longleftrightarrow> (\<exists>c \<in> set r. sublist ''Verified'' (str_cell c))"
  by (simp add: row_has_verified_def list_ex_iff py_in_sublist)

lemma scan_rows_None: "scan_rows i rs = None \<longleftrightarrow> (\<forall>r \<in> set rs. \<not> row_has_verified r)"
  by (induction rs arbitrary: i) auto

lemma scan_rows_Some:
  "scan_rows i rs = Some k \<Longrightarrow>
     i \<le> k \<and> k - i < length rs \<and> row_has_verified (rs ! (k - i)) \<and>
     (\<forall>j < k - i. \<not> row_has_verified (rs ! j))"
proof (induction rs arbitrary: i)
  case Nil
  then show ?case by simp
next
  case (Cons r rs)
  show ?case
  proof (cases "row_has_verified r")
    case True
    with Cons.prems show ?thesis by simp
  next
    case False
    with Cons.prems have s: "scan_rows (Suc i) rs = Some k" by simp
    from Cons.IH [OF s] have ih: "Suc i \<le> k" "k - Suc i < length rs"
      "row_has_verified (rs ! (k - Suc i))" "\<forall>j < k - Suc i. \<not> row_has_verified (rs ! j)"
      by auto
    from ih(1) have e: "k - i = Suc (k - Suc i)" by arith
    show ?thesis
    proof (intro conjI allI impI)
      show "i \<le> k" using ih(1) by arith
      show "k - i < length (r # rs)" using ih(2) e by simp
      show "row_has_verified ((r # rs) ! (k - i))" using ih(3) e by simp
      fix j assume "j < k - i"
      then show "\<not> row_has_verified ((r # rs) ! j)"
        using ih(4) False e by (cases j) auto
    qed
  qed
qed

lemma extract_digits_Null: "extract_digits s = Null \<longleftrightarrow> \<not> has_digits s"
  by (auto simp: extract_digits_def has_digits_def list_ex_iff dropWhile_eq_Nil_conv Let_def)

lemma isnull_extract: "isnull (extract_digits s) \<longleftrightarrow> \<not> has_digits s"
  by (cases "extract_digits s") (auto simp: extract_digits_Null [symmetric])

lemma extract_digits_Text:
  assumes "extract_digits s = Text d"
  shows "\<exists>pre post. s = pre @ d @ post \<and> d \<noteq> [] \<and> (\<forall>c \<in> set d. is_digit c) \<and>
           (\<forall>c \<in> set pre. \<not> is_digit c) \<and> (post = [] \<or> \<not> is_digit (hd post))"
proof -
  let ?pre = "takeWhile (\<lambda>c. \<not> is_digit c) s"
  let ?t = "dropWhile (\<lambda>c. \<not> is_digit c) s"
  let ?post = "dropWhile is_digit ?t"
  from assms have t: "?t \<noteq> []" and d: "d = takeWhile is_digit ?t"
    by (auto simp: extract_digits_def Let_def split: if_splits)
  have "s = ?pre @ ?t" by simp
  moreover have "?t = d @ ?post" unfolding d by simp
  ultimately have 1: "s = ?pre @ d @ ?post" by simp
  from t have "is_digit (hd ?t)" using hd_dropWhile [of "\<lambda>c. \<not> is_digit c" s] by simp
  with t have 2: "d \<noteq> []" unfolding d by (cases ?t) auto
  have 3: "\<forall>c \<in> set d. is_digit c" unfolding d by (auto dest: set_takeWhileD)
  have 4: "\<forall>c \<in> set ?pre. \<not> is_digit c" by (auto dest: set_takeWhileD)
  have 5: "?post = [] \<or> \<not> is_digit (hd ?post)" using hd_dropWhile [of is_digit ?t] by blast
  from 1 2 3 4 5 show ?thesis by blast
qed

section \<open>Lemmas on forward fill\<close>

lemma length_ffill_from: "length (ffill_from p xs) = length xs"
  by (induction xs arbitrary: p) auto

lemma ffill_from_none:
  "i < length xs \<Longrightarrow> \<forall>k \<le> i. isnull (xs ! k) \<Longrightarrow> ffill_from p xs ! i = p"
proof (induction xs arbitrary: i)
  case Nil
  then show ?case by simp
next
  case (Cons x xs)
  from Cons.prems(2) have x: "isnull x" by force
  show ?case
  proof (cases i)
    case 0
    with x show ?thesis by simp
  next
    case (Suc i')
    with Cons.prems have "i' < length xs" "\<forall>k \<le> i'. isnull (xs ! k)" by auto
    from Cons.IH [OF this] x Suc show ?thesis by simp
  qed
qed

lemma ffill_from_nearest:
  "i < length xs \<Longrightarrow> j \<le> i \<Longrightarrow> \<not> isnull (xs ! j) \<Longrightarrow>
   \<forall>k. j < k \<and> k \<le> i \<longrightarrow> isnull (xs ! k) \<Longrightarrow> ffill_from p xs ! i = xs ! j"
proof (induction xs arbitrary: i j p)
  case Nil
  then show ?case by simp
next
  case (Cons x xs)
  show ?case
  proof (cases j)
    case 0
    note j0 = this
    with Cons.prems have x: "\<not> isnull x" by simp
    show ?thesis
    proof (cases i)
      case 0
      with x j0 show ?thesis by simp
    next
      case (Suc i')
      with Cons.prems j0 have "i' < length xs" "\<forall>k \<le> i'. isnull (xs ! k)" by auto
      from ffill_from_none [OF this] have "ffill_from x xs ! i' = x" .
      with x Suc j0 show ?thesis by simp
    qed
  next
    case (Suc j')
    with Cons.prems obtain i' where i: "i = Suc i'" by (cases i) auto
    from Cons.prems Suc i have a: "i' < length xs" "j' \<le> i'" "\<not> isnull (xs ! j')"
      "\<forall>k. j' < k \<and> k \<le> i' \<longrightarrow> isnull (xs ! k)" by auto
    have "ffill_from q xs ! i' = xs ! j'" for q by (rule Cons.IH [OF a])
    with Suc i show ?thesis by simp
  qed
qed

lemma length_card_no: "length (card_no holder) = length holder"
  by (simp add: card_no_def ffill_def length_ffill_from)

section \<open>Lemmas on the column labels of the result\<close>

lemma columns_delete_bottom: "columns (delete_bottom n df) = columns df"
  by (simp add: delete_bottom_def)

lemma columns_drop_empty_rows: "columns (drop_empty_rows df) = columns df"
  by (simp add: drop_empty_rows_def)

lemma columns_keep_final: "columns (keep_final_columns df) = existing_cols df"
  by (simp add: keep_final_columns_def)

lemma columns_clean_frame:
  "columns (clean_frame i df) = existing_cols (card_frame i df)"
  by (simp add: clean_frame_def columns_drop_empty_rows columns_keep_final)

lemma existing_cols_subseq: "subseq (existing_cols df) desired_cols"
  by (simp add: existing_cols_def)

lemma existing_cols_distinct: "distinct (existing_cols df)"
  by (simp add: existing_cols_def desired_cols_def)

section \<open>Lemmas on rows and labels\<close>

lemma cell_of_Nil [simp]: "cell_of c ns [] = Null"
  by (cases ns) auto

lemma length_select: "length xs = length ys \<Longrightarrow> length (select m xs) = length (select m ys)"
proof (induction m arbitrary: xs ys)
  case Nil
  then show ?case by simp
next
  case (Cons b m)
  then show ?case by (cases xs; cases ys) auto
qed

lemma select_map_filter: "select (map P xs) xs = filter P xs"
  by (induction xs) auto

lemma cell_of_select_map:
  "P c \<Longrightarrow> cell_of c (select (map P ns) ns) (select (map P ns) vs) = cell_of c ns vs"
proof (induction ns arbitrary: vs)
  case Nil
  then show ?case by simp
next
  case (Cons n ns)
  then show ?case by (cases vs) auto
qed

lemma cell_of_select_dup:
  "c \<notin> set seen \<Longrightarrow>
   cell_of c (select (map Not (duplicated seen ns)) ns) (select (map Not (duplicated seen ns)) vs)
     = cell_of c ns vs"
proof (induction ns arbitrary: seen vs)
  case Nil
  then show ?case by simp
next
  case (Cons n ns)
  then show ?case by (cases vs) auto
qed

lemma mem_select_dup:
  "c \<notin> set seen \<Longrightarrow> c \<in> set (select (map Not (duplicated seen ns)) ns) \<longleftrightarrow> c \<in> set ns"
proof (induction ns arbitrary: seen)
  case Nil
  then show ?case by simp
next
  case (Cons n ns)
  show ?case
  proof (cases "c = n")
    case True
    with Cons.prems show ?thesis by simp
  next
    case False
    with Cons.prems have "c \<notin> set (n # seen)" by simp
    from Cons.IH [OF this] False show ?thesis by simp
  qed
qed

lemma length_rename_empty [simp]: "length (rename_empty k ns) = length ns"
  by (induction ns arbitrary: k) auto

lemma rename_empty_Cons:
  "rename_empty k (n # ns) =
     (if n = [] then blank_name (Suc k) # rename_empty (Suc k) ns else n # rename_empty k ns)"
  by simp

lemma prefix_blank_name: "prefix ''CardHolderName'' (blank_name k)"
  unfolding blank_name_def by (rule prefixI [OF refl])

lemma blank_name_neq: "\<not> prefix ''CardHolderName'' c \<Longrightarrow> blank_name k \<noteq> c"
  using prefix_blank_name [of k] by (cases "blank_name k = c") simp_all

lemma cell_of_rename_empty:
  "c \<noteq> [] \<Longrightarrow> \<not> prefix ''CardHolderName'' c \<Longrightarrow>
   cell_of c (rename_empty k ns) vs = cell_of c ns vs"
proof (induction ns arbitrary: k vs)
  case Nil
  then show ?case by simp
next
  case (Cons n ns)
  show ?case
  proof (cases vs)
    case Nil
    then show ?thesis by simp
  next
    case vs: (Cons v vs')
    note ne = blank_name_neq [OF Cons.prems(2), of "Suc k"]
    show ?thesis
    proof (cases "n = []")
      case True
      with Cons.prems(1) have "n \<noteq> c" by simp
      with True ne Cons.IH [OF Cons.prems, of "Suc k" vs'] show ?thesis
        unfolding vs rename_empty_Cons by simp
    next
      case False
      with Cons.IH [OF Cons.prems, of k vs'] show ?thesis
        unfolding vs rename_empty_Cons by simp
    qed
  qed
qed

lemma mem_rename_empty:
  "c \<noteq> [] \<Longrightarrow> \<not> prefix ''CardHolderName'' c \<Longrightarrow>
   c \<in> set (rename_empty k ns) \<longleftrightarrow> c \<in> set ns"
proof (induction ns arbitrary: k)
  case Nil
  then show ?case by simp
next
  case (Cons n ns)
  note ne = blank_name_neq [OF Cons.prems(2), of "Suc k"]
  show ?case
  proof (cases "n = []")
    case True
    with Cons.prems(1) have "n \<noteq> c" by simp
    with True ne Cons.IH [OF Cons.prems, of "Suc k"] show ?thesis
      unfolding rename_empty_Cons by auto
  next
    case False
    with Cons.IH [OF Cons.prems, of k] show ?thesis
      unfolding rename_empty_Cons by auto
  qed
qed

lemma cell_of_map_rename:
  "c \<noteq> old \<Longrightarrow> c \<noteq> new \<Longrightarrow>
   cell_of c (map (\<lambda>n. if n = old then new else n) ns) vs = cell_of c ns vs"
proof (induction ns arbitrary: vs)
  case Nil
  then show ?case by simp
next
  case (Cons n ns)
  then show ?case by (cases vs) auto
qed

lemma length_set_cell [simp]: "length (set_cell c ns xs v) = length xs"
  by (induction c ns xs v rule: set_cell.induct) auto

lemma cell_of_set_cell:
  "c' \<noteq> c \<Longrightarrow> cell_of c' ns (set_cell c ns xs v) = cell_of c' ns xs"
  by (induction c ns xs v rule: set_cell.induct) auto

lemma cell_of_set_cell_same:
  "c \<in> set ns \<Longrightarrow> length xs = length ns \<Longrightarrow> cell_of c ns (set_cell c ns xs v) = v"
proof (induction ns arbitrary: xs)
  case Nil
  then show ?case by simp
next
  case (Cons n ns)
  then show ?case by (cases xs) auto
qed

lemma cell_of_append_other:
  "length xs = length ns \<Longrightarrow> c' \<noteq> c \<Longrightarrow> cell_of c' (ns @ [c]) (xs @ [v]) = cell_of c' ns xs"
  by (induction xs ns rule: list_induct2) auto

lemma cell_of_append_same:
  "length xs = length ns \<Longrightarrow> c \<notin> set ns \<Longrightarrow> cell_of c (ns @ [c]) (xs @ [v]) = v"
  by (induction xs ns rule: list_induct2) auto

lemma cell_of_map_labels: "c \<in> set es \<Longrightarrow> cell_of c es (map f es) = f c"
  by (induction es) auto

lemma cell_of_zip: "\<not> isnull (cell_of c ns vs) \<Longrightarrow> (c, cell_of c ns vs) \<in> set (zip ns vs)"
  by (induction c ns vs rule: cell_of.induct) auto

lemma map_map2:
  "length xs = length ys \<Longrightarrow> (\<And>x y. x \<in> set xs \<Longrightarrow> h (f x y) = g x) \<Longrightarrow>
   map h (map2 f xs ys) = map g xs"
  by (induction xs ys rule: list_induct2) auto

section \<open>Lemmas on the column steps\<close>

lemma rectangularD: "rectangular df \<Longrightarrow> r \<in> set (rows df) \<Longrightarrow> length r = length (columns df)"
  by (simp add: rectangular_def list_all_iff)

lemma rectangularI: "(\<And>r. r \<in> set (rows df) \<Longrightarrow> length r = length (columns df)) \<Longrightarrow> rectangular df"
  by (simp add: rectangular_def list_all_iff)

lemma length_series [simp]: "length (series c df) = length (rows df)"
  by (simp add: series_def)

lemma series_name_empty:
  "c \<noteq> [] \<Longrightarrow> \<not> prefix ''CardHolderName'' c \<Longrightarrow>
   series c (name_empty_columns df) = series c df"
  by (simp add: series_def name_empty_columns_def cell_of_rename_empty)

lemma mem_name_empty:
  "c \<noteq> [] \<Longrightarrow> \<not> prefix ''CardHolderName'' c \<Longrightarrow>
   c \<in> set (columns (name_empty_columns df)) \<longleftrightarrow> c \<in> set (columns df)"
  by (simp add: name_empty_columns_def mem_rename_empty)

lemma rect_name_empty: "rectangular df \<Longrightarrow> rectangular (name_empty_columns df)"
  by (simp add: rectangular_def name_empty_columns_def)

lemma rect_loc_cols: "rectangular df \<Longrightarrow> rectangular (loc_cols keep df)"
proof (rule rectangularI)
  fix r assume df: "rectangular df" and "r \<in> set (rows (loc_cols keep df))"
  then obtain r0 where r0: "r0 \<in> set (rows df)" and r: "r = select keep r0"
    by (auto simp: loc_cols_def)
  from rectangularD [OF df r0] have "length (select keep r0) = length (select keep (columns df))"
    by (rule length_select)
  with r show "length r = length (columns (loc_cols keep df))" by (simp add: loc_cols_def)
qed

lemma series_drop_duplicate: "series c (drop_duplicate_columns df) = series c df"
  by (simp add: series_def drop_duplicate_columns_def loc_cols_def cell_of_select_dup)

lemma mem_drop_duplicate:
  "c \<in> set (columns (drop_duplicate_columns df)) \<longleftrightarrow> c \<in> set (columns df)"
  by (simp add: drop_duplicate_columns_def loc_cols_def mem_select_dup)

lemma rect_drop_duplicate: "rectangular df \<Longrightarrow> rectangular (drop_duplicate_columns df)"
  by (simp add: drop_duplicate_columns_def rect_loc_cols)

lemma series_drop_columns: "c \<notin> set labels \<Longrightarrow> series c (drop_columns labels df) = series c df"
  by (simp add: series_def drop_columns_def loc_cols_def cell_of_select_map)

lemma columns_drop_columns:
  "columns (drop_columns labels df) = filter (\<lambda>c. c \<notin> set labels) (columns df)"
  by (simp add: drop_columns_def loc_cols_def select_map_filter)

lemma rect_drop_columns: "rectangular df \<Longrightarrow> rectangular (drop_columns labels df)"
  by (simp add: drop_columns_def rect_loc_cols)

lemma series_drop_record: "c \<noteq> ''Record#'' \<Longrightarrow> series c (drop_record df) = series c df"
  by (simp add: drop_record_def series_drop_columns)

lemma mem_drop_record:
  "c \<noteq> ''Record#'' \<Longrightarrow> c \<in> set (columns (drop_record df)) \<longleftrightarrow> c \<in> set (columns df)"
  by (simp add: drop_record_def columns_drop_columns)

lemma rect_drop_record: "rectangular df \<Longrightarrow> rectangular (drop_record df)"
  by (simp add: drop_record_def rect_drop_columns)

lemma series_rename:
  "c \<noteq> old \<Longrightarrow> c \<noteq> new \<Longrightarrow> series c (rename old new df) = series c df"
  by (simp add: series_def rename_def cell_of_map_rename)

lemma mem_rename:
  "c \<noteq> old \<Longrightarrow> c \<noteq> new \<Longrightarrow> c \<in> set (columns (rename old new df)) \<longleftrightarrow> c \<in> set (columns df)"
  by (auto simp: rename_def)

lemma rect_rename: "rectangular df \<Longrightarrow> rectangular (rename old new df)"
  by (simp add: rectangular_def rename_def)

lemma series_fold_drop:
  "c \<notin> set cs \<Longrightarrow>
   series c (fold (\<lambda>x d. if x \<noteq> ch then drop_columns [x] d else d) cs d) = series c d"
proof (induction cs arbitrary: d)
  case Nil
  then show ?case by simp
next
  case (Cons x cs)
  from Cons.prems have x: "c \<notin> set [x]" and cs: "c \<notin> set cs" by auto
  show ?case
  proof (cases "x \<noteq> ch")
    case True
    then show ?thesis using Cons.IH [OF cs, of "drop_columns [x] d"] series_drop_columns [OF x, of d]
      by simp
  next
    case False
    then show ?thesis using Cons.IH [OF cs, of d] by simp
  qed
qed

lemma mem_fold_drop:
  "c \<notin> set cs \<Longrightarrow>
   c \<in> set (columns (fold (\<lambda>x d. if x \<noteq> ch then drop_columns [x] d else d) cs d))
     \<longleftrightarrow> c \<in> set (columns d)"
proof (induction cs arbitrary: d)
  case Nil
  then show ?case by simp
next
  case (Cons x cs)
  from Cons.prems have x: "c \<noteq> x" and cs: "c \<notin> set cs" by auto
  show ?case
  proof (cases "x \<noteq> ch")
    case True
    then show ?thesis using Cons.IH [OF cs, of "drop_columns [x] d"] x
      by (simp add: columns_drop_columns)
  next
    case False
    then show ?thesis using Cons.IH [OF cs, of d] by simp
  qed
qed

lemma rect_fold_drop:
  "rectangular d \<Longrightarrow>
   rectangular (fold (\<lambda>x d. if x \<noteq> ch then drop_columns [x] d else d) cs d)"
proof (induction cs arbitrary: d)
  case Nil
  then show ?case by simp
next
  case (Cons x cs)
  show ?case
  proof (cases "x \<noteq> ch")
    case True
    then show ?thesis using Cons.IH [OF rect_drop_columns [OF Cons.prems, of "[x]"]] by simp
  next
    case False
    then show ?thesis using Cons.IH [OF Cons.prems] by simp
  qed
qed

lemma chosen_col_card: "chosen_col df = Some ch \<Longrightarrow> prefix ''CardHolderName'' ch"
  by (auto simp: chosen_col_def card_cols_def find_Some_iff dest: nth_mem)

lemma not_card_cols: "\<not> prefix ''CardHolderName'' c \<Longrightarrow> c \<notin> set (card_cols df)"
  by (simp add: card_cols_def)

lemma series_choose:
  assumes "\<not> prefix ''CardHolderName'' c"
  shows "series c (choose_card_column df) = series c df"
proof (cases "chosen_col df")
  case None
  then show ?thesis by (simp add: choose_card_column_def)
next
  case (Some ch)
  from chosen_col_card [OF Some] assms have 1: "c \<noteq> ch" by auto
  from assms have 2: "c \<noteq> ''CardHolderName''" by auto
  show ?thesis
    by (simp add: choose_card_column_def Some series_fold_drop [OF not_card_cols [OF assms]]
        series_rename [OF 1 2])
qed

lemma mem_choose:
  assumes "\<not> prefix ''CardHolderName'' c"
  shows "c \<in> set (columns (choose_card_column df)) \<longleftrightarrow> c \<in> set (columns df)"
proof (cases "chosen_col df")
  case None
  then show ?thesis by (simp add: choose_card_column_def)
next
  case (Some ch)
  from chosen_col_card [OF Some] assms have 1: "c \<noteq> ch" by auto
  from assms have 2: "c \<noteq> ''CardHolderName''" by auto
  show ?thesis
    by (simp add: choose_card_column_def Some mem_fold_drop [OF not_card_cols [OF assms]]
        mem_rename [OF 1 2])
qed

lemma rect_choose: "rectangular df \<Longrightarrow> rectangular (choose_card_column df)"
  by (cases "chosen_col df") (simp_all add: choose_card_column_def rect_fold_drop rect_rename)

section \<open>Lemmas on the Card No. column and on the projection\<close>

lemma length_rows_assign:
  "length vals = length (rows df) \<Longrightarrow> length (rows (assign k vals df)) = length (rows df)"
  by (simp add: assign_def)

lemma series_assign_other:
  assumes "c \<noteq> k" "length vals = length (rows df)" "rectangular df"
  shows "series c (assign k vals df) = series c df"
proof (cases "k \<in> set (columns df)")
  case True
  have "map (cell_of c (columns df)) (map2 (\<lambda>r v. set_cell k (columns df) r v) (rows df) vals)
        = map (cell_of c (columns df)) (rows df)"
    using assms(2) [symmetric] cell_of_set_cell [OF assms(1)] by (intro map_map2) auto
  with True show ?thesis by (simp add: series_def assign_def)
next
  case False
  have "map (cell_of c (columns df @ [k])) (map2 (\<lambda>r v. r @ [v]) (rows df) vals)
        = map (cell_of c (columns df)) (rows df)"
  proof (rule map_map2)
    show "length (rows df) = length vals" using assms(2) by simp
    fix r v assume "r \<in> set (rows df)"
    from rectangularD [OF assms(3) this] assms(1)
    show "cell_of c (columns df @ [k]) (r @ [v]) = cell_of c (columns df) r"
      by (rule cell_of_append_other)
  qed
  with False show ?thesis by (simp add: series_def assign_def)
qed

lemma map_map2_snd:
  "length xs = length ys \<Longrightarrow> (\<And>x y. x \<in> set xs \<Longrightarrow> h (f x y) = y) \<Longrightarrow>
   map h (map2 f xs ys) = ys"
  by (induction xs ys rule: list_induct2) auto

lemma series_assign_same:
  assumes "length vals = length (rows df)" "rectangular df"
  shows "series k (assign k vals df) = vals"
proof (cases "k \<in> set (columns df)")
  case True
  have "map (cell_of k (columns df)) (map2 (\<lambda>r v. set_cell k (columns df) r v) (rows df) vals)
        = vals"
  proof (rule map_map2_snd)
    show "length (rows df) = length vals" using assms(1) by simp
    fix r v assume "r \<in> set (rows df)"
    from True rectangularD [OF assms(2) this]
    show "cell_of k (columns df) (set_cell k (columns df) r v) = v"
      by (rule cell_of_set_cell_same)
  qed
  with True show ?thesis by (simp add: series_def assign_def)
next
  case False
  have "map (cell_of k (columns df @ [k])) (map2 (\<lambda>r v. r @ [v]) (rows df) vals) = vals"
  proof (rule map_map2_snd)
    show "length (rows df) = length vals" using assms(1) by simp
    fix r v assume "r \<in> set (rows df)"
    from rectangularD [OF assms(2) this] False
    show "cell_of k (columns df @ [k]) (r @ [v]) = v"
      by (rule cell_of_append_same)
  qed
  with False show ?thesis by (simp add: series_def assign_def)
qed

lemma mem_assign: "c \<in> set (columns (assign k vals df)) \<longleftrightarrow> c = k \<or> c \<in> set (columns df)"
  by (auto simp: assign_def)

lemma rect_assign:
  assumes "length vals = length (rows df)" "rectangular df"
  shows "rectangular (assign k vals df)"
proof (rule rectangularI)
  fix r assume r: "r \<in> set (rows (assign k vals df))"
  show "length r = length (columns (assign k vals df))"
  proof (cases "k \<in> set (columns df)")
    case True
    with r obtain r0 v where "r0 \<in> set (rows df)" "r = set_cell k (columns df) r0 v"
      by (auto simp: assign_def dest!: set_zip_leftD)
    with rectangularD [OF assms(2)] True show ?thesis by (simp add: assign_def)
  next
    case False
    with r obtain r0 v where "r0 \<in> set (rows df)" "r = r0 @ [v]"
      by (auto simp: assign_def dest!: set_zip_leftD)
    with rectangularD [OF assms(2)] False show ?thesis by (simp add: assign_def)
  qed
qed

lemma length_card_no_series:
  "length (card_no (series ''CardHolderName'' df)) = length (rows df)"
  by (simp add: length_card_no)

lemma series_extract_card_no:
  assumes "c \<noteq> ''Card No.''" "c \<noteq> ''CardHolderName''" "rectangular df"
  shows "series c (extract_card_no df) = series c df"
proof (cases "''CardHolderName'' \<in> set (columns df)")
  case True
  from assms(2) have "c \<notin> set [''CardHolderName'']" by simp
  from series_drop_columns [OF this]
    series_assign_other [OF assms(1) length_card_no_series assms(3)] True
  show ?thesis by (simp add: extract_card_no_def)
next
  case False
  then show ?thesis by (simp add: extract_card_no_def)
qed

lemma mem_extract_card_no:
  assumes "c \<noteq> ''Card No.''" "c \<noteq> ''CardHolderName''"
  shows "c \<in> set (columns (extract_card_no df)) \<longleftrightarrow> c \<in> set (columns df)"
  using assms by (simp add: extract_card_no_def columns_drop_columns mem_assign)

lemma rect_extract_card_no: "rectangular df \<Longrightarrow> rectangular (extract_card_no df)"
  by (simp add: extract_card_no_def rect_drop_columns rect_assign length_card_no_series)

lemma card_no_installed:
  assumes "''CardHolderName'' \<in> set (columns df)" "rectangular df"
  shows "series ''Card No.'' (extract_card_no df) = card_no (series ''CardHolderName'' df)"
proof -
  have "''Card No.'' \<notin> set [''CardHolderName'']" by simp
  from series_drop_columns [OF this]
    series_assign_same [OF length_card_no_series assms(2)] assms(1)
  show ?thesis by (simp add: extract_card_no_def)
qed

lemma series_keep_final:
  "c \<in> set (existing_cols df) \<Longrightarrow> series c (keep_final_columns df) = series c df"
  by (simp add: series_def keep_final_columns_def cell_of_map_labels comp_def)

lemma length_rows_keep_final: "length (rows (keep_final_columns df)) = length (rows df)"
  by (simp add: keep_final_columns_def)

section \<open>Lemmas on steps 3 to 9 as a whole\<close>

lemma value_cols_plain:
  assumes "c \<in> set value_cols"
  shows "c \<noteq> []" "\<not> prefix ''CardHolderName'' c" "c \<noteq> ''Record#''" "c \<noteq> ''Card No.''"
    "c \<noteq> ''CardHolderName''"
  using assms by (auto simp: value_cols_def)

lemma rect_card_frame:
  "rectangular (set_header i df) \<Longrightarrow> rectangular (card_frame i df)"
  unfolding card_frame_def
  by (intro rect_extract_card_no rect_choose rect_drop_record rect_drop_duplicate rect_name_empty)

lemma series_card_frame:
  assumes c: "c \<in> set value_cols" and r: "rectangular (set_header i df)"
  shows "series c (card_frame i df) = series c (set_header i df)"
proof -
  note p = value_cols_plain [OF c]
  let ?a = "name_empty_columns (set_header i df)"
  let ?b = "drop_duplicate_columns ?a"
  let ?c = "drop_record ?b"
  let ?d = "choose_card_column ?c"
  have rd: "rectangular ?d"
    by (intro rect_choose rect_drop_record rect_drop_duplicate rect_name_empty r)
  have "series c (extract_card_no ?d) = series c ?d"
    by (rule series_extract_card_no [OF p(4) p(5) rd])
  also have "\<dots> = series c ?c" by (rule series_choose [OF p(2)])
  also have "\<dots> = series c ?b" by (rule series_drop_record [OF p(3)])
  also have "\<dots> = series c ?a" by (rule series_drop_duplicate)
  also have "\<dots> = series c (set_header i df)" by (rule series_name_empty [OF p(1) p(2)])
  finally show ?thesis by (simp only: card_frame_def)
qed

lemma mem_card_frame:
  assumes c: "c \<in> set value_cols"
  shows "c \<in> set (columns (card_frame i df)) \<longleftrightarrow> c \<in> set (columns (set_header i df))"
proof -
  note p = value_cols_plain [OF c]
  show ?thesis
    unfolding card_frame_def
    by (simp only: mem_extract_card_no [OF p(4) p(5)] mem_choose [OF p(2)]
        mem_drop_record [OF p(3)] mem_drop_duplicate mem_name_empty [OF p(1) p(2)])
qed

lemma length_rows_card_frame:
  assumes "rectangular (set_header i df)"
  shows "length (rows (card_frame i df)) = length (rows (set_header i df))"
proof -
  have "''Verified'' \<in> set value_cols" by (simp add: value_cols_def)
  from series_card_frame [OF this assms]
  have "length (series ''Verified'' (card_frame i df)) = length (series ''Verified'' (set_header i df))"
    by simp
  then show ?thesis by (simp only: length_series)
qed

lemma check_cols_keep_final:
  "check_cols (keep_final_columns df) = filter (\<lambda>c. c \<in> set (columns df)) value_cols"
  by (simp add: check_cols_def keep_final_columns_def existing_cols_def desired_cols_def
      value_cols_def)

lemma check_cols_existing:
  "c \<in> set (check_cols (keep_final_columns df)) \<Longrightarrow> c \<in> set (existing_cols df)"
  by (simp add: check_cols_def keep_final_columns_def)

lemma check_cols_value:
  "c \<in> set (check_cols (keep_final_columns df)) \<Longrightarrow> c \<in> set value_cols"
  by (simp add: check_cols_keep_final)

lemma list_all2_filter:
  "list_all2 R xs ys \<Longrightarrow> (\<And>x y. R x y \<Longrightarrow> P x = Q y) \<Longrightarrow>
   list_all2 R (filter P xs) (filter Q ys)"
  by (induction xs ys rule: list_all2_induct) auto

lemma map_eq_nth:
  "map f xs = map g ys \<Longrightarrow> k < length xs \<Longrightarrow> f (xs ! k) = g (ys ! k)"
  by (metis length_map nth_map)

section \<open>Lemmas on the surviving rows\<close>

lemma rows_correspond:
  assumes r: "rectangular (set_header i df)"
  shows "list_all2
           (\<lambda>x y. \<forall>c \<in> set (check_cols (keep_final_columns (card_frame i df))).
                     cell_of c (columns (keep_final_columns (card_frame i df))) x
                       = cell_of c (columns (set_header i df)) y)
           (rows (keep_final_columns (card_frame i df))) (rows (set_header i df))"
proof -
  let ?K = "keep_final_columns (card_frame i df)"
  let ?S = "set_header i df"
  have len: "length (rows ?K) = length (rows ?S)"
    by (simp only: length_rows_keep_final length_rows_card_frame [OF r])
  have "cell_of c (columns ?K) (rows ?K ! k) = cell_of c (columns ?S) (rows ?S ! k)"
    if k: "k < length (rows ?K)" and c: "c \<in> set (check_cols ?K)" for k c
  proof -
    have "series c ?K = series c (card_frame i df)"
      by (rule series_keep_final [OF check_cols_existing [OF c]])
    also have "\<dots> = series c ?S"
      by (rule series_card_frame [OF check_cols_value [OF c] r])
    finally have "map (cell_of c (columns ?K)) (rows ?K) = map (cell_of c (columns ?S)) (rows ?S)"
      by (simp only: series_def)
    from map_eq_nth [OF this k] show ?thesis .
  qed
  with len show ?thesis by (simp add: list_all2_conv_all_nth)
qed

lemma rows_clean_frame:
  "rows (clean_frame i df) =
     filter (\<lambda>x. list_ex (\<lambda>c. \<not> isnull (cell_of c (columns (keep_final_columns (card_frame i df))) x))
                    (check_cols (keep_final_columns (card_frame i df))))
       (rows (keep_final_columns (card_frame i df)))"
  by (simp add: clean_frame_def drop_empty_rows_def)

lemma clean_rows_correspond:
  assumes r: "rectangular (set_header i df)"
  shows "list_all2
           (\<lambda>x y. \<forall>c \<in> set (check_cols (keep_final_columns (card_frame i df))).
                     cell_of c (columns (keep_final_columns (card_frame i df))) x
                       = cell_of c (columns (set_header i df)) y)
           (rows (clean_frame i df))
           (filter (\<lambda>y. list_ex (\<lambda>c. \<not> isnull (cell_of c (columns (set_header i df)) y))
                            (check_cols (keep_final_columns (card_frame i df))))
              (rows (set_header i df)))"
  unfolding rows_clean_frame
  by (rule list_all2_filter [OF rows_correspond [OF r]]) (simp add: list_ex_iff)

lemma list_all2_delete_bottom:
  assumes "list_all2 R (rows d) ys"
  shows "list_all2 R (rows (delete_bottom b d))
           (if 0 < b \<and> b \<le> length ys then take (length ys - b) ys else ys)"
proof -
  from assms have l: "length (rows d) = length ys" by (rule list_all2_lengthD)
  show ?thesis
  proof (cases "0 < b \<and> b \<le> length ys")
    case True
    with l have "rows (delete_bottom b d) = take (length ys - b) (rows d)"
      by (simp add: delete_bottom_def)
    with True list_all2_takeI [OF assms, of "length ys - b"] show ?thesis by simp
  next
    case False
    with l have "rows (delete_bottom b d) = rows d" by (auto simp: delete_bottom_def)
    with False assms show ?thesis by auto
  qed
qed

lemma subseq_trimmed_filter:
  "subseq (if 0 < b \<and> b \<le> length (filter Q ys) then take (length (filter Q ys) - b) (filter Q ys)
           else filter Q ys) ys"
proof -
  have "subseq (take n (filter Q ys)) ys" for n
    using prefix_imp_subseq [OF take_is_prefix] subseq_filter_left
    by (rule subseq_order.trans)
  then show ?thesis by simp
qed

lemma header_in_range:
  "verified_header_index df = Some i \<Longrightarrow> i < length df"
  by (auto simp: verified_header_index_def dest!: scan_rows_Some)

lemma rect_set_header:
  assumes "\<forall>r \<in> set df. length r = w" "i < length df"
  shows "rectangular (set_header i df)"
proof (rule rectangularI)
  fix r assume "r \<in> set (rows (set_header i df))"
  then have "r \<in> set df" by (auto simp: set_header_def dest: in_set_dropD)
  moreover from assms(2) have "df ! i \<in> set df" by simp
  ultimately show "length r = length (columns (set_header i df))"
    using assms(1) by (simp add: set_header_def)
qed

lemma process_card_data_Inr:
  "process_card_data df rows_to_delete_top rows_to_delete_bottom = Inr out \<Longrightarrow>
   \<exists>i. verified_header_index (drop rows_to_delete_top df) = Some i \<and>
       out = delete_bottom rows_to_delete_bottom (clean_frame i (drop rows_to_delete_top df))"
  by (auto simp: process_card_data_def Let_def split: option.splits)

section \<open>The labels are unique where the code indexes by label\<close>

text \<open>
  Steps 8, 9 and 10 read columns by label (\<^verbatim>\<open>df[c]\<close>, \<^verbatim>\<open>df[existing_cols]\<close>). After step 6
  no label occurs twice, and steps 7 to 9 keep it so: the one renaming that can repeat a
  label, that of the chosen column to CardHolderName next to a column already so labelled,
  is followed by the removal of both. Reading the leftmost column of a label, as \<open>cell_of\<close>
  does, is therefore reading the only one.
\<close>

lemma distinct_select_dup:
  "distinct (select (map Not (duplicated seen ns)) ns) \<and>
   (\<forall>x \<in> set (select (map Not (duplicated seen ns)) ns). x \<notin> set seen)"
proof (induction ns arbitrary: seen)
  case Nil
  show ?case by simp
next
  case (Cons n ns)
  note ih = Cons.IH [of "n # seen"]
  show ?case
  proof (cases "n \<in> set seen")
    case True
    with ih show ?thesis by simp
  next
    case False
    from ih have "n \<notin> set (select (map Not (duplicated (n # seen) ns)) ns)" by auto
    with ih False show ?thesis by simp
  qed
qed

lemma distinct_drop_duplicate: "distinct (columns (drop_duplicate_columns df))"
  using distinct_select_dup [of "[]" "columns df"]
  by (simp add: drop_duplicate_columns_def loc_cols_def)

lemma distinct_drop_columns:
  "distinct (columns df) \<Longrightarrow> distinct (columns (drop_columns labels df))"
  by (simp add: columns_drop_columns)

lemma distinct_drop_record: "distinct (columns df) \<Longrightarrow> distinct (columns (drop_record df))"
  by (simp add: drop_record_def distinct_drop_columns)

lemma columns_fold_drop:
  "columns (fold (\<lambda>x d. if x \<noteq> ch then drop_columns [x] d else d) cs d)
     = filter (\<lambda>c. \<not> (c \<in> set cs \<and> c \<noteq> ch)) (columns d)"
proof (induction cs arbitrary: d)
  case Nil
  show ?case by simp
next
  case (Cons x cs)
  show ?case
  proof (cases "x \<noteq> ch")
    case True
    have "filter (\<lambda>c. \<not> (c \<in> set cs \<and> c \<noteq> ch)) (filter (\<lambda>c. c \<noteq> x) (columns d))
          = filter (\<lambda>c. \<not> (c \<in> set (x # cs) \<and> c \<noteq> ch)) (columns d)"
      using True by (auto intro: filter_cong)
    with True Cons.IH [of "drop_columns [x] d"] show ?thesis
      by (simp add: columns_drop_columns)
  next
    case False
    have "filter (\<lambda>c. \<not> (c \<in> set cs \<and> c \<noteq> ch)) (columns d)
          = filter (\<lambda>c. \<not> (c \<in> set (x # cs) \<and> c \<noteq> ch)) (columns d)"
      using False by (auto intro: filter_cong)
    with False Cons.IH [of d] show ?thesis by simp
  qed
qed

lemma distinct_choose:
  assumes d: "distinct (columns df)"
  shows "distinct (columns (choose_card_column df))"
proof (cases "chosen_col df")
  case None
  with d show ?thesis by (simp add: choose_card_column_def)
next
  case (Some ch)
  let ?rho = "\<lambda>c. if c = ch then ''CardHolderName'' else c"
  let ?P = "\<lambda>c. \<not> (c \<in> set (card_cols df) \<and> c \<noteq> ch)"
  let ?ys = "filter (?P \<circ> ?rho) (columns df)"
  have cols: "columns (choose_card_column df) = map ?rho ?ys"
    by (simp add: choose_card_column_def Some columns_fold_drop rename_def filter_map)
  have dy: "distinct ?ys" using d by simp
  have inj: "inj_on ?rho (set ?ys)"
  proof (rule inj_onI)
    fix a b assume a: "a \<in> set ?ys" and b: "b \<in> set ?ys" and e: "?rho a = ?rho b"
    have no: "\<not> (x \<in> set ?ys \<and> x = ''CardHolderName'' \<and> ch \<noteq> ''CardHolderName'')" for x
      by (auto simp: card_cols_def)
    show "a = b"
    proof (cases "a = ch")
      case True
      note ach = this
      show ?thesis
      proof (cases "b = ch")
        case True
        with ach show ?thesis by simp
      next
        case False
        with ach e have "b = ''CardHolderName''" by simp
        with no [of b] b have "ch = ''CardHolderName''" by blast
        with \<open>b = ''CardHolderName''\<close> ach show ?thesis by simp
      qed
    next
      case False
      note nach = this
      show ?thesis
      proof (cases "b = ch")
        case True
        with nach e have "a = ''CardHolderName''" by simp
        with no [of a] a have "ch = ''CardHolderName''" by blast
        with \<open>a = ''CardHolderName''\<close> True show ?thesis by simp
      next
        case False
        with nach e show ?thesis by simp
      qed
    qed
  qed
  from dy inj show ?thesis unfolding cols by (simp add: distinct_map)
qed

lemma distinct_assign: "distinct (columns df) \<Longrightarrow> distinct (columns (assign k vals df))"
  by (simp add: assign_def)

lemma distinct_extract_card_no:
  "distinct (columns df) \<Longrightarrow> distinct (columns (extract_card_no df))"
  by (simp add: extract_card_no_def distinct_drop_columns distinct_assign)

lemma distinct_card_frame: "distinct (columns (card_frame i df))"
  unfolding card_frame_def
  by (intro distinct_extract_card_no distinct_choose distinct_drop_record
      distinct_drop_duplicate)

section \<open>The end-to-end scenario\<close>

text \<open>
  Claim C1. The header row stands at index 2, below two rows that are not header rows, and
  is followed by the two data rows of the scenario. With no trimming the call succeeds; the
  result has the columns Card No., Verified, Date, Payee, Charges in this order; the first
  row's Card No. is 001, the first digit run of "CH001 - John"; the second row, whose holder
  cell has no digit, inherits 001; Record# is gone and every other cell is the input's.
\<close>

theorem end_to_end_scenario:
  assumes "\<not> row_has_verified r0" and "\<not> row_has_verified r1"
  shows "process_card_data
      [r0, r1,
       [Text '''', Text ''Verified'', Text ''Date'', Text ''Payee'', Text ''Charges'',
        Text ''Record#''],
       [Text ''CH001 - John'', Text ''Y'', Text ''2024-01-01'', Text ''Store'', Text ''10.00'',
        Text ''1''],
       [Text '''', Text ''Y'', Text ''2024-01-02'', Text ''Store2'', Text ''20.00'',
        Text ''2'']] 0 0
    = Inr \<lparr>columns = [''Card No.'', ''Verified'', ''Date'', ''Payee'', ''Charges''],
           rows = [[Text ''001'', Text ''Y'', Text ''2024-01-01'', Text ''Store'', Text ''10.00''],
                   [Text ''001'', Text ''Y'', Text ''2024-01-02'', Text ''Store2'',
                    Text ''20.00'']]\<rparr>"
proof -
  let ?h = "[Text '''', Text ''Verified'', Text ''Date'', Text ''Payee'', Text ''Charges'',
             Text ''Record#'']"
  let ?d1 = "[Text ''CH001 - John'', Text ''Y'', Text ''2024-01-01'', Text ''Store'',
              Text ''10.00'', Text ''1'']"
  let ?d2 = "[Text '''', Text ''Y'', Text ''2024-01-02'', Text ''Store2'', Text ''20.00'',
              Text ''2'']"
  let ?names = "['''', ''Verified'', ''Date'', ''Payee'', ''Charges'', ''Record#'']"
  have hv: "row_has_verified ?h" by (simp add: row_has_verified_def)
  have idx: "verified_header_index [r0, r1, ?h, ?d1, ?d2] = Some 2"
    using assms hv by (simp add: verified_header_index_def)
  have hdr: "set_header 2 [r0, r1, ?h, ?d1, ?d2] = \<lparr>columns = ?names, rows = [?d1, ?d2]\<rparr>"
    by (simp add: set_header_def clean_col_def strip_def is_space_def)
  have run: "drop_empty_rows (keep_final_columns (extract_card_no (choose_card_column
       (drop_record (drop_duplicate_columns (name_empty_columns
          \<lparr>columns = ?names, rows = [?d1, ?d2]\<rparr>))))))
    = \<lparr>columns = [''Card No.'', ''Verified'', ''Date'', ''Payee'', ''Charges''],
       rows = [[Text ''001'', Text ''Y'', Text ''2024-01-01'', Text ''Store'', Text ''10.00''],
               [Text ''001'', Text ''Y'', Text ''2024-01-02'', Text ''Store2'',
                Text ''20.00'']]\<rparr>"
    by code_simp
  have fr: "clean_frame 2 [r0, r1, ?h, ?d1, ?d2]
    = \<lparr>columns = [''Card No.'', ''Verified'', ''Date'', ''Payee'', ''Charges''],
       rows = [[Text ''001'', Text ''Y'', Text ''2024-01-01'', Text ''Store'', Text ''10.00''],
               [Text ''001'', Text ''Y'', Text ''2024-01-02'', Text ''Store2'',
                Text ''20.00'']]\<rparr>"
    unfolding clean_frame_def card_frame_def hdr run ..
  show ?thesis
    by (simp add: process_card_data_def idx fr delete_bottom_def)
qed

text \<open>The scenario with a blank row and a title row above the header.\<close>

theorem end_to_end_scenario_witness:
  "\<not> row_has_verified [Null, Null, Null, Null, Null, Null] \<and>
   \<not> row_has_verified [Text ''Card report'', Null, Null, Null, Null, Null] \<and>
   process_card_data
      [[Null, Null, Null, Null, Null, Null],
       [Text ''Card report'', Null, Null, Null, Null, Null],
       [Text '''', Text ''Verified'', Text ''Date'', Text ''Payee'', Text ''Charges'',
        Text ''Record#''],
       [Text ''CH001 - John'', Text ''Y'', Text ''2024-01-01'', Text ''Store'', Text ''10.00'',
        Text ''1''],
       [Text '''', Text ''Y'', Text ''2024-01-02'', Text ''Store2'', Text ''20.00'',
        Text ''2'']] 0 0
    = Inr \<lparr>columns = [''Card No.'', ''Verified'', ''Date'', ''Payee'', ''Charges''],
           rows = [[Text ''001'', Text ''Y'', Text ''2024-01-01'', Text ''Store'', Text ''10.00''],
                   [Text ''001'', Text ''Y'', Text ''2024-01-02'', Text ''Store2'',
                    Text ''20.00'']]\<rparr>"
proof -
  have a: "\<not> row_has_verified [Null, Null, Null, Null, Null, Null]"
    by (simp add: row_has_verified_def)
  have b: "\<not> row_has_verified [Text ''Card report'', Null, Null, Null, Null, Null]"
    by (simp add: row_has_verified_def)
  from a b end_to_end_scenario [OF a b] show ?thesis by blast
qed

section \<open>Header detection\<close>

text \<open>
  Claim C2. When, after the top trim, one of the first min(10, row count) rows has a cell
  whose printed form contains "Verified", the call returns a table, and the labels of that
  table are a subsequence without repetition of Card No., Verified, Date, Payee, Charges.
\<close>

theorem header_found_succeeds:
  assumes "\<exists>r \<in> set (take (min 10 (length (drop rows_to_delete_top df)))
                        (drop rows_to_delete_top df)).
             \<exists>c \<in> set r. sublist ''Verified'' (str_cell c)"
  shows "\<exists>out. process_card_data df rows_to_delete_top rows_to_delete_bottom = Inr out \<and>
           subseq (columns out) [''Card No.'', ''Verified'', ''Date'', ''Payee'', ''Charges''] \<and>
           distinct (columns out)"
proof -
  let ?df1 = "drop rows_to_delete_top df"
  from assms have "verified_header_index ?df1 \<noteq> None"
    unfolding verified_header_index_def scan_rows_None row_has_verified_iff by blast
  then obtain i where i: "verified_header_index ?df1 = Some i" by blast
  let ?out = "delete_bottom rows_to_delete_bottom (clean_frame i ?df1)"
  have p: "process_card_data df rows_to_delete_top rows_to_delete_bottom = Inr ?out"
    by (simp add: process_card_data_def i)
  have c: "columns ?out = existing_cols (card_frame i ?df1)"
    by (simp only: columns_delete_bottom columns_clean_frame)
  have "subseq (columns ?out) desired_cols" unfolding c by (rule existing_cols_subseq)
  then have s: "subseq (columns ?out)
                  [''Card No.'', ''Verified'', ''Date'', ''Payee'', ''Charges'']"
    by (simp only: desired_cols_def)
  have d: "distinct (columns ?out)" unfolding c by (rule existing_cols_distinct)
  from p s d show ?thesis by blast
qed

text \<open>A table whose header is its second row, read after one row is trimmed from the top.\<close>

theorem header_found_succeeds_witness:
  "(\<exists>r \<in> set (take (min 10 (length (drop 1
        [[Text ''Export''], [Text ''Date'', Text '' Verified ''], [Text ''d'', Text ''Y'']])))
        (drop 1 [[Text ''Export''], [Text ''Date'', Text '' Verified ''], [Text ''d'', Text ''Y'']])).
      \<exists>c \<in> set r. sublist ''Verified'' (str_cell c)) \<and>
   (\<exists>out. process_card_data
        [[Text ''Export''], [Text ''Date'', Text '' Verified ''], [Text ''d'', Text ''Y'']] 1 0
        = Inr out \<and>
      subseq (columns out) [''Card No.'', ''Verified'', ''Date'', ''Payee'', ''Charges''] \<and>
      distinct (columns out))"
proof -
  have h: "\<exists>r \<in> set (take (min 10 (length (drop 1
        [[Text ''Export''], [Text ''Date'', Text '' Verified ''], [Text ''d'', Text ''Y'']])))
        (drop 1 [[Text ''Export''], [Text ''Date'', Text '' Verified ''], [Text ''d'', Text ''Y'']])).
      \<exists>c \<in> set r. sublist ''Verified'' (str_cell c)"
    by (simp add: py_in_sublist [symmetric])
  from h header_found_succeeds [OF h] show ?thesis by blast
qed

text \<open>
  Claim C3. When, after the top trim, none of the first min(10, row count) rows has a cell
  whose printed form contains "Verified" (the match is case-sensitive), no table is
  produced: the call fails with the header-not-found error.
\<close>

theorem no_header_fails:
  assumes "\<forall>r \<in> set (take (min 10 (length (drop rows_to_delete_top df)))
                        (drop rows_to_delete_top df)).
             \<forall>c \<in> set r. \<not> sublist ''Verified'' (str_cell c)"
  shows "process_card_data df rows_to_delete_top rows_to_delete_bottom = Inl HeaderNotFound"
proof -
  have "verified_header_index (drop rows_to_delete_top df) = None"
    unfolding verified_header_index_def scan_rows_None row_has_verified_iff
    using assms by blast
  then show ?thesis by (simp add: process_card_data_def)
qed

text \<open>The header is trimmed away; what is left has the word in lower case only.\<close>

theorem no_header_fails_witness:
  "\<not> (\<exists>r \<in> set (take (min 10 (length (drop 1
        [[Text ''Verified''], [Text ''verified'', Number 7, Null]])))
        (drop 1 [[Text ''Verified''], [Text ''verified'', Number 7, Null]])).
      \<exists>c \<in> set r. sublist ''Verified'' (str_cell c)) \<and>
   process_card_data [[Text ''Verified''], [Text ''verified'', Number 7, Null]] 1 0
     = Inl HeaderNotFound"
proof -
  have s: "str_int 7 = ''7''" by code_simp
  have h: "\<forall>r \<in> set (take (min 10 (length (drop 1
        [[Text ''Verified''], [Text ''verified'', Number 7, Null]])))
        (drop 1 [[Text ''Verified''], [Text ''verified'', Number 7, Null]])).
      \<forall>c \<in> set r. \<not> sublist ''Verified'' (str_cell c)"
    by (simp add: s py_in_sublist [symmetric])
  from h no_header_fails [OF h] show ?thesis by blast
qed

section \<open>Top trim\<close>

text \<open>
  Claim C4, as stated, fails: with more rows trimmed from the top than the table has, the
  call does not return an empty table. Here a two-row table is trimmed by three rows and the
  call ends with the header-not-found error.
\<close>

theorem top_trim_beyond_counterexample:
  "length [[Text ''Verified'', Text ''Date''], [Text ''Y'', Text ''2024-01-01'']] < (3::nat) \<and>
   \<not> (\<exists>out. process_card_data
          [[Text ''Verified'', Text ''Date''], [Text ''Y'', Text ''2024-01-01'']] 3 0 = Inr out)"
  by (simp add: process_card_data_def verified_header_index_def)

text \<open>
  Claim C4, amended. When the top trim is larger than the row count, the trim itself
  leaves an empty table without raising, and the call then fails with the header-not-found
  error, as the scan finds no row at all.
\<close>

theorem top_trim_beyond:
  assumes "length df < rows_to_delete_top"
  shows "drop rows_to_delete_top df = [] \<and>
         process_card_data df rows_to_delete_top rows_to_delete_bottom = Inl HeaderNotFound"
  using assms by (simp add: process_card_data_def verified_header_index_def)

theorem top_trim_beyond_witness:
  "length [[Text ''Verified'', Text ''Date''], [Text ''Y'', Text ''2024-01-01'']] < (3::nat) \<and>
   drop 3 [[Text ''Verified'', Text ''Date''], [Text ''Y'', Text ''2024-01-01'']] = [] \<and>
   process_card_data [[Text ''Verified'', Text ''Date''], [Text ''Y'', Text ''2024-01-01'']] 3 1
     = Inl HeaderNotFound"
proof -
  have h: "length [[Text ''Verified'', Text ''Date''], [Text ''Y'', Text ''2024-01-01'']] < (3::nat)"
    by simp
  from h top_trim_beyond [OF h, of 1] show ?thesis by blast
qed

section \<open>Identifier extraction and forward fill\<close>

text \<open>
  Claim C5. The identifier pass \<open>card_no\<close> works on the cells of the holder column. Each
  cell is printed and replaced by its first run of digits: the run is not empty, consists of
  digits, has no digit before it and no digit right after it; a cell without a digit, a
  null cell among them, becomes missing. The result is then filled forward: a cell with digits
  keeps its own run, a cell without takes the run of the nearest cell above that has one, and
  the cells above the first run stay missing. The cells null, "12", null, "34" give null, "12",
  "12", "34". On a rectangular frame with a column labelled CardHolderName, step 9 installs
  exactly these values as the column Card No.
\<close>

theorem identifier_pass:
  "length (card_no holder) = length holder \<and>
   (extract_digits (str_cell v) = Null \<longleftrightarrow> \<not> (\<exists>ch \<in> set (str_cell v). is_digit ch)) \<and>
   (extract_digits (str_cell v) = Text d \<longrightarrow>
      (\<exists>pre post. str_cell v = pre @ d @ post \<and> d \<noteq> [] \<and> (\<forall>ch \<in> set d. is_digit ch) \<and>
         (\<forall>ch \<in> set pre. \<not> is_digit ch) \<and> (post = [] \<or> \<not> is_digit (hd post)))) \<and>
   extract_digits (str_cell Null) = Null \<and>
   (i < length holder \<and> j \<le> i \<and> has_digits (str_cell (holder ! j)) \<and>
      (\<forall>k. j < k \<and> k \<le> i \<longrightarrow> \<not> has_digits (str_cell (holder ! k)))
      \<longrightarrow> card_no holder ! i = extract_digits (str_cell (holder ! j))) \<and>
   (i < length holder \<and> (\<forall>k \<le> i. \<not> has_digits (str_cell (holder ! k)))
      \<longrightarrow> card_no holder ! i = Null) \<and>
   card_no [Null, Text ''12'', Null, Text ''34''] = [Null, Text ''12'', Text ''12'', Text ''34''] \<and>
   (''CardHolderName'' \<in> set (columns fr) \<and> rectangular fr \<longrightarrow>
      series ''Card No.'' (extract_card_no fr) = card_no (series ''CardHolderName'' fr))"
proof (intro conjI impI)
  show "length (card_no holder) = length holder" by (rule length_card_no)
next
  show "extract_digits (str_cell v) = Null \<longleftrightarrow> \<not> (\<exists>ch \<in> set (str_cell v). is_digit ch)"
    by (simp add: extract_digits_Null has_digits_def list_ex_iff)
next
  assume "extract_digits (str_cell v) = Text d"
  then show "\<exists>pre post. str_cell v = pre @ d @ post \<and> d \<noteq> [] \<and> (\<forall>ch \<in> set d. is_digit ch) \<and>
              (\<forall>ch \<in> set pre. \<not> is_digit ch) \<and> (post = [] \<or> \<not> is_digit (hd post))"
    by (rule extract_digits_Text)
next
  show "extract_digits (str_cell Null) = Null" by code_simp
next
  assume a: "i < length holder \<and> j \<le> i \<and> has_digits (str_cell (holder ! j)) \<and>
          (\<forall>k. j < k \<and> k \<le> i \<longrightarrow> \<not> has_digits (str_cell (holder ! k)))"
  let ?xs = "map (\<lambda>v. extract_digits (str_cell v)) holder"
  have "ffill_from Null ?xs ! i = ?xs ! j"
    by (rule ffill_from_nearest) (use a in \<open>auto simp: isnull_extract\<close>)
  with a show "card_no holder ! i = extract_digits (str_cell (holder ! j))"
    by (simp add: card_no_def ffill_def)
next
  assume a: "i < length holder \<and> (\<forall>k \<le> i. \<not> has_digits (str_cell (holder ! k)))"
  let ?xs = "map (\<lambda>v. extract_digits (str_cell v)) holder"
  have "ffill_from Null ?xs ! i = Null"
    by (rule ffill_from_none) (use a in \<open>auto simp: isnull_extract\<close>)
  then show "card_no holder ! i = Null"
    by (simp add: card_no_def ffill_def)
next
  show "card_no [Null, Text ''12'', Null, Text ''34''] = [Null, Text ''12'', Text ''12'', Text ''34'']"
    by code_simp
next
  assume "''CardHolderName'' \<in> set (columns fr) \<and> rectangular fr"
  then show "series ''Card No.'' (extract_card_no fr) = card_no (series ''CardHolderName'' fr)"
    by (simp add: card_no_installed)
qed

text \<open>
  A holder column with a number cell and a text cell that has two digit runs, in a frame of
  two columns.
\<close>

theorem identifier_pass_witness:
  "card_no [Null, Number 12, Null, Text ''a34b5''] ! 2 = Text ''12'' \<and>
   card_no [Null, Number 12, Null, Text ''a34b5''] ! 0 = Null \<and>
   (\<exists>pre post. ''a34b5'' = pre @ ''34'' @ post \<and> (post = [] \<or> \<not> is_digit (hd post))) \<and>
   series ''Card No.''
     (extract_card_no \<lparr>columns = [''CardHolderName'', ''Verified''],
                       rows = [[Text ''CH7 Ann'', Text ''Y''], [Null, Text ''N'']]\<rparr>)
     = [Text ''7'', Text ''7'']"
proof -
  let ?h = "[Null, Number 12, Null, Text ''a34b5'']"
  let ?fr = "\<lparr>columns = [''CardHolderName'', ''Verified''],
              rows = [[Text ''CH7 Ann'', Text ''Y''], [Null, Text ''N'']]\<rparr>"
  have d1: "has_digits (str_cell (?h ! 1))" by code_simp
  have d2: "\<not> has_digits (str_cell (?h ! 2))" by code_simp
  have d0: "\<not> has_digits (str_cell (?h ! 0))" by code_simp
  have e1: "extract_digits (str_cell (?h ! 1)) = Text ''12''" by code_simp
  have e3: "extract_digits (str_cell (Text ''a34b5'')) = Text ''34''" by code_simp
  have k2: "\<forall>k. 1 < k \<and> k \<le> 2 \<longrightarrow> \<not> has_digits (str_cell (?h ! k))"
  proof (intro allI impI)
    fix k :: nat assume "1 < k \<and> k \<le> 2"
    then have "k = 2" by arith
    with d2 show "\<not> has_digits (str_cell (?h ! k))" by simp
  qed
  have k0: "\<forall>k \<le> 0. \<not> has_digits (str_cell (?h ! k))" using d0 by simp
  have h1: "2 < length ?h \<and> 1 \<le> (2::nat) \<and> has_digits (str_cell (?h ! 1)) \<and>
            (\<forall>k. 1 < k \<and> k \<le> 2 \<longrightarrow> \<not> has_digits (str_cell (?h ! k)))"
    using d1 k2 by simp
  have h0: "0 < length ?h \<and> (\<forall>k \<le> 0. \<not> has_digits (str_cell (?h ! k)))"
    using k0 by simp
  have hf: "''CardHolderName'' \<in> set (columns ?fr) \<and> rectangular ?fr"
    by (simp add: rectangular_def)
  note t1 = identifier_pass [of ?h "Text ''a34b5''" "''34''" 2 1 ?fr]
  note t0 = identifier_pass [of ?h "Text ''a34b5''" "''34''" 0 0 ?fr]
  from t1 h1 have a: "card_no ?h ! 2 = extract_digits (str_cell (?h ! 1))" by blast
  from t0 h0 have b: "card_no ?h ! 0 = Null" by blast
  from t1 e3 have "\<exists>pre post. str_cell (Text ''a34b5'') = pre @ ''34'' @ post \<and> ''34'' \<noteq> [] \<and>
       (\<forall>ch \<in> set ''34''. is_digit ch) \<and> (\<forall>ch \<in> set pre. \<not> is_digit ch) \<and>
       (post = [] \<or> \<not> is_digit (hd post))" by blast
  then have c: "\<exists>pre post. ''a34b5'' = pre @ ''34'' @ post \<and> (post = [] \<or> \<not> is_digit (hd post))"
    by auto
  from t1 hf have "series ''Card No.'' (extract_card_no ?fr) = card_no (series ''CardHolderName'' ?fr)"
    by blast
  moreover have "card_no (series ''CardHolderName'' ?fr) = [Text ''7'', Text ''7'']" by code_simp
  ultimately have d: "series ''Card No.'' (extract_card_no ?fr) = [Text ''7'', Text ''7'']" by simp
  from a e1 b c d show ?thesis by simp
qed

section \<open>The empty-row filter\<close>

text \<open>
  Claim C6. In every table the call returns, each row has a value in at least one of the
  columns Verified, Date, Payee, Charges (stated on the pairs of a label and the row's cell
  under it). In the filter step a row whose cells in all checked columns are null is
  removed, whatever its Card No. cell holds, and a row with a value under Charges is kept.
\<close>

theorem kept_rows_have_values:
  "(process_card_data df rows_to_delete_top rows_to_delete_bottom = Inr out \<longrightarrow>
      (\<forall>r \<in> set (rows out). \<exists>c v. (c, v) \<in> set (zip (columns out) r) \<and>
          c \<in> set [''Verified'', ''Date'', ''Payee'', ''Charges''] \<and> \<not> isnull v)) \<and>
   (r \<in> set (rows fr) \<and> (\<forall>c \<in> set (check_cols fr). isnull (cell_of c (columns fr) r)) \<longrightarrow>
      r \<notin> set (rows (drop_empty_rows fr))) \<and>
   (r \<in> set (rows fr) \<and> ''Charges'' \<in> set (columns fr) \<and>
      \<not> isnull (cell_of ''Charges'' (columns fr) r) \<longrightarrow>
      r \<in> set (rows (drop_empty_rows fr)))"
proof (intro conjI impI ballI)
  fix x
  assume ok: "process_card_data df rows_to_delete_top rows_to_delete_bottom = Inr out"
    and x: "x \<in> set (rows out)"
  let ?df1 = "drop rows_to_delete_top df"
  from ok obtain i where out: "out = delete_bottom rows_to_delete_bottom (clean_frame i ?df1)"
    by (auto dest: process_card_data_Inr)
  let ?K = "keep_final_columns (card_frame i ?df1)"
  have cols: "columns out = columns ?K"
    by (simp add: out columns_delete_bottom clean_frame_def columns_drop_empty_rows)
  from x have "x \<in> set (rows (clean_frame i ?df1))"
    by (auto simp: out delete_bottom_def split: if_splits dest: in_set_takeD)
  then have "list_ex (\<lambda>c. \<not> isnull (cell_of c (columns ?K) x)) (check_cols ?K)"
    by (simp add: rows_clean_frame)
  then obtain c where c: "c \<in> set (check_cols ?K)" and v: "\<not> isnull (cell_of c (columns ?K) x)"
    by (auto simp: list_ex_iff)
  from cell_of_zip [OF v] have "(c, cell_of c (columns ?K) x) \<in> set (zip (columns out) x)"
    by (simp only: cols)
  moreover from check_cols_value [OF c]
  have "c \<in> set [''Verified'', ''Date'', ''Payee'', ''Charges'']" by (simp only: value_cols_def)
  ultimately show "\<exists>c v. (c, v) \<in> set (zip (columns out) x) \<and>
          c \<in> set [''Verified'', ''Date'', ''Payee'', ''Charges''] \<and> \<not> isnull v"
    using v by blast
next
  assume "r \<in> set (rows fr) \<and> (\<forall>c \<in> set (check_cols fr). isnull (cell_of c (columns fr) r))"
  then show "r \<notin> set (rows (drop_empty_rows fr))"
    by (simp add: drop_empty_rows_def list_ex_iff)
next
  assume a: "r \<in> set (rows fr) \<and> ''Charges'' \<in> set (columns fr) \<and>
      \<not> isnull (cell_of ''Charges'' (columns fr) r)"
  then have "''Charges'' \<in> set (check_cols fr)" by (simp add: check_cols_def)
  with a show "r \<in> set (rows (drop_empty_rows fr))"
    by (auto simp: drop_empty_rows_def list_ex_iff)
qed

text \<open>
  A run in which the second data row has a card number and nothing else, and the third only
  a charge; and the filter step alone on two such rows.
\<close>

theorem kept_rows_have_values_witness:
  "process_card_data
     [[Null, Text ''Verified'', Text ''Charges''],
      [Text ''CH12'', Text ''Y'', Text ''5.00''],
      [Text ''CH13'', Null, Null],
      [Null, Null, Text ''7.50'']] 0 0
     = Inr \<lparr>columns = [''Card No.'', ''Verified'', ''Charges''],
            rows = [[Text ''12'', Text ''Y'', Text ''5.00''], [Text ''13'', Null, Text ''7.50'']]\<rparr> \<and>
   (\<exists>c v. (c, v) \<in> set (zip [''Card No.'', ''Verified'', ''Charges'']
                              [Text ''13'', Null, Text ''7.50'']) \<and>
      c \<in> set [''Verified'', ''Date'', ''Payee'', ''Charges''] \<and> \<not> isnull v) \<and>
   [Text ''001'', Null, Null, Null, Null]
     \<notin> set (rows (drop_empty_rows
          \<lparr>columns = [''Card No.'', ''Verified'', ''Date'', ''Payee'', ''Charges''],
           rows = [[Text ''001'', Null, Null, Null, Null],
                   [Null, Null, Null, Null, Text ''5.00'']]\<rparr>)) \<and>
   [Null, Null, Null, Null, Text ''5.00'']
     \<in> set (rows (drop_empty_rows
          \<lparr>columns = [''Card No.'', ''Verified'', ''Date'', ''Payee'', ''Charges''],
           rows = [[Text ''001'', Null, Null, Null, Null],
                   [Null, Null, Null, Null, Text ''5.00'']]\<rparr>))"
proof -
  let ?df = "[[Null, Text ''Verified'', Text ''Charges''],
      [Text ''CH12'', Text ''Y'', Text ''5.00''],
      [Text ''CH13'', Null, Null],
      [Null, Null, Text ''7.50'']]"
  let ?out = "\<lparr>columns = [''Card No.'', ''Verified'', ''Charges''],
            rows = [[Text ''12'', Text ''Y'', Text ''5.00''], [Text ''13'', Null, Text ''7.50'']]\<rparr>"
  let ?fr = "\<lparr>columns = [''Card No.'', ''Verified'', ''Date'', ''Payee'', ''Charges''],
           rows = [[Text ''001'', Null, Null, Null, Null],
                   [Null, Null, Null, Null, Text ''5.00'']]\<rparr>"
  let ?ra = "[Text ''001'', Null, Null, Null, Null]"
  let ?rb = "[Null, Null, Null, Null, Text ''5.00'']"
  have ok: "process_card_data ?df 0 0 = Inr ?out" by code_simp
  have m: "[Text ''13'', Null, Text ''7.50''] \<in> set (rows ?out)" by simp
  have ha: "?ra \<in> set (rows ?fr) \<and> (\<forall>c \<in> set (check_cols ?fr). isnull (cell_of c (columns ?fr) ?ra))"
    by (simp add: check_cols_def)
  have hb: "?rb \<in> set (rows ?fr) \<and> ''Charges'' \<in> set (columns ?fr) \<and>
            \<not> isnull (cell_of ''Charges'' (columns ?fr) ?rb)"
    by simp
  note ta = kept_rows_have_values [of ?df 0 0 ?out ?ra ?fr]
  note tb = kept_rows_have_values [of ?df 0 0 ?out ?rb ?fr]
  from ta ok have "\<forall>r \<in> set (rows ?out). \<exists>c v. (c, v) \<in> set (zip (columns ?out) r) \<and>
          c \<in> set [''Verified'', ''Date'', ''Payee'', ''Charges''] \<and> \<not> isnull v" by blast
  from bspec [OF this m]
  have 1: "\<exists>c v. (c, v) \<in> set (zip [''Card No.'', ''Verified'', ''Charges'']
                              [Text ''13'', Null, Text ''7.50'']) \<and>
      c \<in> set [''Verified'', ''Date'', ''Payee'', ''Charges''] \<and> \<not> isnull v" by simp
  from ta ha have 2: "?ra \<notin> set (rows (drop_empty_rows ?fr))" by blast
  from tb hb have 3: "?rb \<in> set (rows (drop_empty_rows ?fr))" by blast
  from ok 1 2 3 show ?thesis by blast
qed

text \<open>
  Claim C7, as stated, fails: when no checked column is left, the filter does not let the
  rows through. Here the only column is Card No.; both rows are dropped. The second part
  is a run of the whole function that ends this way: the header cell "Is Verified" makes
  its row the header, and no column is labelled Verified.
\<close>

theorem empty_check_cols_counterexample:
  "check_cols \<lparr>columns = [''Card No.''], rows = [[Text ''001''], [Text ''002'']]\<rparr> = [] \<and>
   rows (drop_empty_rows \<lparr>columns = [''Card No.''], rows = [[Text ''001''], [Text ''002'']]\<rparr>)
     \<noteq> rows \<lparr>columns = [''Card No.''], rows = [[Text ''001''], [Text ''002'']]\<rparr> \<and>
   process_card_data [[Null, Text ''Is Verified''], [Text ''CH1'', Text ''Y'']] 0 0
     = Inr \<lparr>columns = [''Card No.''], rows = []\<rparr>"
proof -
  have "process_card_data [[Null, Text ''Is Verified''], [Text ''CH1'', Text ''Y'']] 0 0
     = Inr \<lparr>columns = [''Card No.''], rows = []\<rparr>" by code_simp
  then show ?thesis by (simp add: check_cols_def drop_empty_rows_def)
qed

text \<open>
  Claim C7, amended. In the empty-row filter step, when the kept columns other than
  Card No. are none, every row is dropped: the step leaves a table with the same columns and
  no rows.
\<close>

theorem empty_check_cols_drop_all:
  assumes "check_cols fr = []"
  shows "rows (drop_empty_rows fr) = [] \<and> columns (drop_empty_rows fr) = columns fr"
  using assms by (simp add: drop_empty_rows_def)

theorem empty_check_cols_drop_all_witness:
  "check_cols \<lparr>columns = [''Card No.''], rows = [[Text ''001''], [Text ''002'']]\<rparr> = [] \<and>
   rows (drop_empty_rows \<lparr>columns = [''Card No.''], rows = [[Text ''001''], [Text ''002'']]\<rparr>) = [] \<and>
   columns (drop_empty_rows \<lparr>columns = [''Card No.''], rows = [[Text ''001''], [Text ''002'']]\<rparr>)
     = [''Card No.'']"
proof -
  have h: "check_cols \<lparr>columns = [''Card No.''], rows = [[Text ''001''], [Text ''002'']]\<rparr> = []"
    by (simp add: check_cols_def)
  from h empty_check_cols_drop_all [OF h] show ?thesis by simp
qed

section \<open>Selection of the identifier column\<close>

text \<open>
  Claim C8, as stated, fails. The header cell "CardHolderName" gives a column with this very
  label. Its sample has no digit, so no column is chosen; step 9 tests the label only, runs,
  and the result has a column Card No. that the input did not have.
\<close>

theorem no_identifier_column_counterexample:
  "\<not> (\<exists>c \<in> set (card_cols \<lparr>columns = [''CardHolderName'', ''Verified''],
                              rows = [[Text ''x'', Text ''Y'']]\<rparr>).
        list_ex has_digits (sample_values c \<lparr>columns = [''CardHolderName'', ''Verified''],
                                             rows = [[Text ''x'', Text ''Y'']]\<rparr>)) \<and>
   chosen_col \<lparr>columns = [''CardHolderName'', ''Verified''], rows = [[Text ''x'', Text ''Y'']]\<rparr>
     = None \<and>
   extract_card_no (choose_card_column
       \<lparr>columns = [''CardHolderName'', ''Verified''], rows = [[Text ''x'', Text ''Y'']]\<rparr>)
     = \<lparr>columns = [''Verified'', ''Card No.''], rows = [[Text ''Y'', Null]]\<rparr> \<and>
   process_card_data [[Text ''CardHolderName'', Text ''Verified''], [Text ''x'', Text ''Y'']] 0 0
     = Inr \<lparr>columns = [''Card No.'', ''Verified''], rows = [[Null, Text ''Y'']]\<rparr>"
proof -
  let ?fr = "\<lparr>columns = [''CardHolderName'', ''Verified''], rows = [[Text ''x'', Text ''Y'']]\<rparr>"
  have 1: "\<not> (\<exists>c \<in> set (card_cols ?fr). list_ex has_digits (sample_values c ?fr))"
    by code_simp
  have 2: "chosen_col ?fr = None" by code_simp
  have 3: "extract_card_no (choose_card_column ?fr)
     = \<lparr>columns = [''Verified'', ''Card No.''], rows = [[Text ''Y'', Null]]\<rparr>" by code_simp
  have 4: "process_card_data [[Text ''CardHolderName'', Text ''Verified''],
                              [Text ''x'', Text ''Y'']] 0 0
     = Inr \<lparr>columns = [''Card No.'', ''Verified''], rows = [[Null, Text ''Y'']]\<rparr>" by code_simp
  from 1 2 3 4 show ?thesis by blast
qed

text \<open>
  Claim C8, amended. When no column whose label starts with CardHolderName has a digit among
  its first 20 non-null printed values, no identifier column is chosen and step 8 leaves the
  frame as it is; when moreover no column is labelled exactly CardHolderName, step 9 is
  skipped as well, so the frame after steps 8 and 9 is the frame before them.
\<close>

theorem no_identifier_column:
  assumes "\<forall>c \<in> set (card_cols fr). \<not> list_ex has_digits (sample_values c fr)"
  shows "chosen_col fr = None \<and> choose_card_column fr = fr \<and>
         (''CardHolderName'' \<notin> set (columns fr) \<longrightarrow> extract_card_no (choose_card_column fr) = fr)"
proof -
  from assms have n: "chosen_col fr = None" by (simp add: chosen_col_def find_None_iff)
  then have c: "choose_card_column fr = fr" by (simp add: choose_card_column_def)
  from n c show ?thesis by (simp add: extract_card_no_def)
qed

theorem no_identifier_column_witness:
  "\<not> (\<exists>c \<in> set (card_cols \<lparr>columns = [''CardHolderName1'', ''Verified''],
                              rows = [[Text ''John'', Text ''Y'']]\<rparr>).
        list_ex has_digits (sample_values c \<lparr>columns = [''CardHolderName1'', ''Verified''],
                                             rows = [[Text ''John'', Text ''Y'']]\<rparr>)) \<and>
   ''CardHolderName'' \<notin> set (columns \<lparr>columns = [''CardHolderName1'', ''Verified''],
                                        rows = [[Text ''John'', Text ''Y'']]\<rparr>) \<and>
   chosen_col \<lparr>columns = [''CardHolderName1'', ''Verified''],
               rows = [[Text ''John'', Text ''Y'']]\<rparr> = None \<and>
   extract_card_no (choose_card_column
       \<lparr>columns = [''CardHolderName1'', ''Verified''], rows = [[Text ''John'', Text ''Y'']]\<rparr>)
     = \<lparr>columns = [''CardHolderName1'', ''Verified''], rows = [[Text ''John'', Text ''Y'']]\<rparr>"
proof -
  let ?fr = "\<lparr>columns = [''CardHolderName1'', ''Verified''],
              rows = [[Text ''John'', Text ''Y'']]\<rparr>"
  have h: "\<forall>c \<in> set (card_cols ?fr). \<not> list_ex has_digits (sample_values c ?fr)"
    by code_simp
  have n: "''CardHolderName'' \<notin> set (columns ?fr)" by simp
  from no_identifier_column [OF h] n
  have "chosen_col ?fr = None \<and> extract_card_no (choose_card_column ?fr) = ?fr" by blast
  with h n show ?thesis by blast
qed

section \<open>Bottom trim\<close>

text \<open>
  Claim C9. In the bottom-trim step, when the count is positive and not larger than the number
  of rows, the table loses exactly that many rows, at its end, and keeps its columns;
  otherwise, and so whenever the count is larger than the number of rows, the table is left
  as it is.
\<close>

theorem bottom_trim:
  "(0 < n \<and> n \<le> length (rows fr) \<longrightarrow>
      (\<exists>dropped. rows fr = rows (delete_bottom n fr) @ dropped \<and> length dropped = n) \<and>
      columns (delete_bottom n fr) = columns fr) \<and>
   (\<not> (0 < n \<and> n \<le> length (rows fr)) \<longrightarrow> delete_bottom n fr = fr) \<and>
   (length (rows fr) < n \<longrightarrow> delete_bottom n fr = fr)"
proof (intro conjI impI)
  assume a: "0 < n \<and> n \<le> length (rows fr)"
  let ?k = "length (rows fr) - n"
  have "rows fr = take ?k (rows fr) @ drop ?k (rows fr)" by simp
  moreover have "length (drop ?k (rows fr)) = n" using a by simp
  moreover have "rows (delete_bottom n fr) = take ?k (rows fr)"
    using a by (simp add: delete_bottom_def)
  ultimately show "\<exists>dropped. rows fr = rows (delete_bottom n fr) @ dropped \<and> length dropped = n"
    by metis
  show "columns (delete_bottom n fr) = columns fr" by (simp add: delete_bottom_def)
next
  assume "\<not> (0 < n \<and> n \<le> length (rows fr))"
  then show "delete_bottom n fr = fr" by (auto simp: delete_bottom_def)
next
  assume "length (rows fr) < n"
  then show "delete_bottom n fr = fr" by (simp add: delete_bottom_def)
qed

text \<open>Three rows, trimmed by two and by five.\<close>

theorem bottom_trim_witness:
  "(\<exists>dropped. [[Text ''a''], [Text ''b''], [Text ''c'']]
       = rows (delete_bottom 2 \<lparr>columns = [''Verified''],
                                rows = [[Text ''a''], [Text ''b''], [Text ''c'']]\<rparr>) @ dropped \<and>
       length dropped = 2) \<and>
   delete_bottom 5 \<lparr>columns = [''Verified''], rows = [[Text ''a''], [Text ''b''], [Text ''c'']]\<rparr>
     = \<lparr>columns = [''Verified''], rows = [[Text ''a''], [Text ''b''], [Text ''c'']]\<rparr>"
proof -
  let ?fr = "\<lparr>columns = [''Verified''], rows = [[Text ''a''], [Text ''b''], [Text ''c'']]\<rparr>"
  have h2: "0 < (2::nat) \<and> 2 \<le> length (rows ?fr)" by simp
  have h5: "length (rows ?fr) < 5" by simp
  from bottom_trim [of 2 ?fr] h2
  have "\<exists>dropped. rows ?fr = rows (delete_bottom 2 ?fr) @ dropped \<and> length dropped = 2"
    by blast
  then have a: "\<exists>dropped. [[Text ''a''], [Text ''b''], [Text ''c'']]
       = rows (delete_bottom 2 ?fr) @ dropped \<and> length dropped = 2" by simp
  from bottom_trim [of 5 ?fr] h5 have b: "delete_bottom 5 ?fr = ?fr" by blast
  from a b show ?thesis by blast
qed

section \<open>The value columns are not rewritten\<close>

text \<open>
  Claim C10. On a rectangular input on which the call succeeds, the rows of the result stand
  one for one, in order, for rows of the input taken from below the header row (a subsequence
  of them: rows are only dropped). Every column of the result other than Card No. is one of
  Verified, Date, Payee, Charges, and each cell of the result in such a column is the cell of
  its input row under the leftmost header cell whose cleaned text is that label.
\<close>

theorem value_cells_unchanged:
  assumes ok: "process_card_data df rows_to_delete_top rows_to_delete_bottom = Inr out"
    and rect: "\<forall>r \<in> set df. length r = w"
  shows "\<exists>i srv.
           verified_header_index (drop rows_to_delete_top df) = Some i \<and>
           subseq srv (drop (Suc i) (drop rows_to_delete_top df)) \<and>
           length (rows out) = length srv \<and>
           (\<forall>k < length srv. \<forall>c \<in> set (columns out). c \<noteq> ''Card No.'' \<longrightarrow>
              c \<in> set [''Verified'', ''Date'', ''Payee'', ''Charges''] \<and>
              cell_of c (columns out) (rows out ! k)
                = cell_of c (map clean_col (drop rows_to_delete_top df ! i)) (srv ! k))"
proof -
  let ?df1 = "drop rows_to_delete_top df"
  from ok obtain i where i: "verified_header_index ?df1 = Some i"
    and out: "out = delete_bottom rows_to_delete_bottom (clean_frame i ?df1)"
    by (auto dest: process_card_data_Inr)
  let ?S = "set_header i ?df1"
  let ?K = "keep_final_columns (card_frame i ?df1)"
  let ?Q = "\<lambda>y. list_ex (\<lambda>c. \<not> isnull (cell_of c (columns ?S) y)) (check_cols ?K)"
  let ?F = "filter ?Q (rows ?S)"
  let ?srv = "if 0 < rows_to_delete_bottom \<and> rows_to_delete_bottom \<le> length ?F
              then take (length ?F - rows_to_delete_bottom) ?F else ?F"
  let ?R = "\<lambda>x y. \<forall>c \<in> set (check_cols ?K). cell_of c (columns ?K) x = cell_of c (columns ?S) y"
  from rect have "\<forall>r \<in> set ?df1. length r = w" by (auto dest: in_set_dropD)
  then have r: "rectangular ?S" by (rule rect_set_header [OF _ header_in_range [OF i]])
  have la: "list_all2 ?R (rows out) ?srv"
    unfolding out by (rule list_all2_delete_bottom [OF clean_rows_correspond [OF r]])
  have S: "rows ?S = drop (Suc i) ?df1" "columns ?S = map clean_col (?df1 ! i)"
    by (simp_all add: set_header_def)
  have sub: "subseq ?srv (drop (Suc i) ?df1)"
    using subseq_trimmed_filter [of rows_to_delete_bottom ?Q "rows ?S"] by (simp only: S)
  have len: "length (rows out) = length ?srv" using la by (rule list_all2_lengthD)
  have cols: "columns out = columns ?K"
    by (simp add: out columns_delete_bottom clean_frame_def columns_drop_empty_rows)
  have cells: "c \<in> set [''Verified'', ''Date'', ''Payee'', ''Charges''] \<and>
      cell_of c (columns out) (rows out ! k) = cell_of c (map clean_col (?df1 ! i)) (?srv ! k)"
    if k: "k < length ?srv" and c: "c \<in> set (columns out)" and n: "c \<noteq> ''Card No.''" for k c
  proof -
    from c n have cc: "c \<in> set (check_cols ?K)" by (simp add: cols check_cols_def)
    from check_cols_value [OF cc] have v: "c \<in> set [''Verified'', ''Date'', ''Payee'', ''Charges'']"
      by (simp only: value_cols_def)
    from list_all2_nthD2 [OF la k] cc
    have "cell_of c (columns ?K) (rows out ! k) = cell_of c (columns ?S) (?srv ! k)" by blast
    with v show ?thesis by (simp only: cols S)
  qed
  from i sub len cells show ?thesis by blast
qed

text \<open>
  A table with a title row, a header with a padded label, three data rows of which the
  second has no value, and the last row trimmed from the bottom.
\<close>

theorem value_cells_unchanged_witness:
  "\<exists>i srv.
     verified_header_index (drop 0
        [[Text ''Report'', Null, Null],
         [Null, Text ''Verified'', Text '' Charges ''],
         [Text ''CH12'', Text ''Y'', Text ''5.00''],
         [Text ''x'', Null, Null],
         [Null, Null, Text ''7.50''],
         [Text ''Total'', Null, Text ''12.50'']]) = Some i \<and>
     subseq srv (drop (Suc i) (drop 0
        [[Text ''Report'', Null, Null],
         [Null, Text ''Verified'', Text '' Charges ''],
         [Text ''CH12'', Text ''Y'', Text ''5.00''],
         [Text ''x'', Null, Null],
         [Null, Null, Text ''7.50''],
         [Text ''Total'', Null, Text ''12.50'']])) \<and>
     length (rows \<lparr>columns = [''Card No.'', ''Verified'', ''Charges''],
                   rows = [[Text ''12'', Text ''Y'', Text ''5.00''],
                           [Text ''12'', Null, Text ''7.50'']]\<rparr>) = length srv \<and>
     (\<forall>k < length srv.
        \<forall>c \<in> set (columns \<lparr>columns = [''Card No.'', ''Verified'', ''Charges''],
                   rows = [[Text ''12'', Text ''Y'', Text ''5.00''],
                           [Text ''12'', Null, Text ''7.50'']]\<rparr>).
          c \<noteq> ''Card No.'' \<longrightarrow>
          c \<in> set [''Verified'', ''Date'', ''Payee'', ''Charges''] \<and>
          cell_of c (columns \<lparr>columns = [''Card No.'', ''Verified'', ''Charges''],
                   rows = [[Text ''12'', Text ''Y'', Text ''5.00''],
                           [Text ''12'', Null, Text ''7.50'']]\<rparr>)
            (rows \<lparr>columns = [''Card No.'', ''Verified'', ''Charges''],
                   rows = [[Text ''12'', Text ''Y'', Text ''5.00''],
                           [Text ''12'', Null, Text ''7.50'']]\<rparr> ! k)
            = cell_of c (map clean_col (drop 0
                [[Text ''Report'', Null, Null],
                 [Null, Text ''Verified'', Text '' Charges ''],
                 [Text ''CH12'', Text ''Y'', Text ''5.00''],
                 [Text ''x'', Null, Null],
                 [Null, Null, Text ''7.50''],
                 [Text ''Total'', Null, Text ''12.50'']] ! i)) (srv ! k))"
proof -
  let ?df = "[[Text ''Report'', Null, Null],
         [Null, Text ''Verified'', Text '' Charges ''],
         [Text ''CH12'', Text ''Y'', Text ''5.00''],
         [Text ''x'', Null, Null],
         [Null, Null, Text ''7.50''],
         [Text ''Total'', Null, Text ''12.50'']]"
  have ok: "process_card_data ?df 0 1
     = Inr \<lparr>columns = [''Card No.'', ''Verified'', ''Charges''],
            rows = [[Text ''12'', Text ''Y'', Text ''5.00''],
                    [Text ''12'', Null, Text ''7.50'']]\<rparr>" by code_simp
  have rect: "\<forall>r \<in> set ?df. length r = 3" by simp
  from value_cells_unchanged [OF ok rect] show ?thesis .
qed

end
